theory Spec2Isabelle
  imports Main "HOL-Library.Multiset"
begin

section \<open>Return codes and results\<close>

text \<open>
  The engine reports a failure as an Exception carrying a return code and a message.
  The model keeps the return code; \<open>FailureOr<T>\<close> is the sum \<open>ReturnCode + T\<close>
  with \<open>Inl\<close> the failure. \<open>ERROR_OTHER\<close> stands for the codes the sort operator and
  the Concat expression only pass through. \<open>CHECK_FAILED\<close> is not a return code of the
  engine: it marks a failed \<open>CHECK\<close>, which aborts the process.
\<close>

datatype ReturnCode =
    ERROR_MEMORY_EXCEEDED
  | ERROR_TEMP_FILE_CREATION_ERROR
  | ERROR_NOT_IMPLEMENTED
  | ERROR_INVALID_ARGUMENT_VALUE
  | WAITING_ON_BARRIER
  | ERROR_ATTRIBUTE_COUNT_MISMATCH
  | ERROR_ATTRIBUTE_MISSING
  | ERROR_OTHER nat
  | CHECK_FAILED

datatype DataType =
    INT32 | UINT32 | INT64 | UINT64 | FLOAT | DOUBLE | BOOL
  | STRING | BINARY | DATE | DATETIME

datatype ColumnOrder = ASCENDING | DESCENDING

section \<open>BoundExtendedSort: the duplicate key check (sort.cc)\<close>

text \<open>
  One key of an ExtendedSortSpecification. The check reads \<open>attribute_name()\<close> and
  \<open>case_sensitive()\<close> of each key, and the type that the child's schema reports for the
  key's attribute name. TupleSchema::LookupAttribute is declared outside the sources at
  hand, so the schema enters as the function \<open>lookup_type\<close> giving
  \<open>schema().LookupAttribute(name).type()\<close>.
\<close>

record ExtendedSortKey =
  attribute_name :: string
  case_sensitive :: bool
  column_order :: ColumnOrder

text \<open>
  The loop over \<open>keys(i)\<close> with its two sets of names seen so far. \<open>Some code\<close> is the
  THROW that leaves BoundExtendedSort; \<open>None\<close> means the loop ran to its end.
\<close>

fun check_duplicate_keys ::
  "(string \<Rightarrow> DataType) \<Rightarrow> ExtendedSortKey list \<Rightarrow> string set \<Rightarrow> string set \<Rightarrow> ReturnCode option"
where
  "check_duplicate_keys lookup_type [] case_insensitive_keys case_sensitive_keys = None"
| "check_duplicate_keys lookup_type (k # ks) case_insensitive_keys case_sensitive_keys =
     (if \<not> case_sensitive k \<and> lookup_type (attribute_name k) = STRING then
        (if attribute_name k \<in> case_insensitive_keys
         then Some ERROR_INVALID_ARGUMENT_VALUE
         else check_duplicate_keys lookup_type ks
                (insert (attribute_name k) case_insensitive_keys) case_sensitive_keys)
      else
        (if attribute_name k \<in> case_sensitive_keys
         then Some ERROR_INVALID_ARGUMENT_VALUE
         else check_duplicate_keys lookup_type ks
                case_insensitive_keys (insert (attribute_name k) case_sensitive_keys)))"

text \<open>
  BoundExtendedSort up to the end of the check: a THROW of the check is the result of
  the whole function; otherwise the function goes on to build the Compute and Sort
  cursors, whose result is \<open>rest\<close>.
\<close>

definition BoundExtendedSort ::
  "(string \<Rightarrow> DataType) \<Rightarrow> ExtendedSortKey list \<Rightarrow> (ReturnCode + 'c) \<Rightarrow> ReturnCode + 'c"
where
  "BoundExtendedSort lookup_type keys rest =
     (case check_duplicate_keys lookup_type keys {} {} of
        Some e \<Rightarrow> Inl e
      | None \<Rightarrow> rest)"

text \<open>
  A key is effectively case-insensitive when its flag says so and its column is a
  STRING; every other key is effectively case-sensitive.
\<close>

definition effectively_case_insensitive :: "(string \<Rightarrow> DataType) \<Rightarrow> ExtendedSortKey \<Rightarrow> bool" where
  "effectively_case_insensitive lookup_type k =
     (\<not> case_sensitive k \<and> lookup_type (attribute_name k) = STRING)"

definition duplicate_key_pair :: "(string \<Rightarrow> DataType) \<Rightarrow> ExtendedSortKey list \<Rightarrow> bool" where
  "duplicate_key_pair lookup_type keys =
     (\<exists>i j. i < j \<and> j < length keys \<and>
        attribute_name (keys ! i) = attribute_name (keys ! j) \<and>
        effectively_case_insensitive lookup_type (keys ! i) =
        effectively_case_insensitive lookup_type (keys ! j))"

section \<open>Columns, views and permutations\<close>

text \<open>
  A Column is a typed data pointer and an \<open>is_null\<close> pointer, which is NULL for an
  attribute that is not nullable. A View is a list of columns with a common row count.
  The values of a column are taken from a linearly ordered type \<open>'a\<close>:
  \<open>ThreeWayCompare<type, type, true>(x, y) == RESULT_LESS\<close> is \<open>x < y\<close> there.
  TypeSpecialization picks the comparator of the column's DataType; in the model this is
  the order of \<open>'a\<close>. (FLOAT and DOUBLE columns holding NaN are outside this model.)
\<close>

record 'a Column =
  data :: "'a list"
  is_null :: "bool list option"

record 'a View =
  columns :: "'a Column list"
  row_count :: nat

text \<open>
  Modelled from the spec: the class Permutation (its constructor, \<open>Sort\<close>,
  \<open>Partition\<close>, \<open>at\<close> and \<open>size\<close>) is declared outside the sources at hand.
  The spec describes a Permutation as an array of row indices, initially the identity;
  its \<open>Sort\<close> orders a range by a comparator, and its \<open>Partition\<close> places the
  indices that satisfy the predicate first and returns how many there are (SortRange
  adds the result to \<open>source.from\<close>). The order among indices that the comparator
  does not separate, and inside each side of a partition, is not fixed by this: the
  comments of sort.cc name the STL sort and \<open>stl::partition\<close>. The model keeps such
  indices in the order in which it finds them, which is one of the admissible outcomes;
  the order of rows with equal keys in its results is therefore not a property of the
  code.
\<close>

type_synonym Permutation = "nat list"

definition Permutation_new :: "nat \<Rightarrow> Permutation" where
  "Permutation_new n = [0..<n]"

fun insert_sorted :: "('a \<Rightarrow> 'a \<Rightarrow> bool) \<Rightarrow> 'a \<Rightarrow> 'a list \<Rightarrow> 'a list" where
  "insert_sorted comparator x [] = [x]"
| "insert_sorted comparator x (y # ys) =
     (if comparator y x then y # insert_sorted comparator x ys else x # y # ys)"

definition stable_sort :: "('a \<Rightarrow> 'a \<Rightarrow> bool) \<Rightarrow> 'a list \<Rightarrow> 'a list" where
  "stable_sort comparator xs = foldr (insert_sorted comparator) xs []"

definition slice :: "nat \<Rightarrow> nat \<Rightarrow> 'a list \<Rightarrow> 'a list" where
  "slice lo hi xs = take (hi - lo) (drop lo xs)"

definition Permutation_Sort ::
  "nat \<Rightarrow> nat \<Rightarrow> (nat \<Rightarrow> nat \<Rightarrow> bool) \<Rightarrow> Permutation \<Rightarrow> Permutation" where
  "Permutation_Sort lo hi comparator p =
     take lo p @ stable_sort comparator (slice lo hi p) @ drop hi p"

definition Permutation_Partition ::
  "nat \<Rightarrow> nat \<Rightarrow> (nat \<Rightarrow> bool) \<Rightarrow> Permutation \<Rightarrow> nat \<times> Permutation" where
  "Permutation_Partition lo hi predicate p =
     (length (filter predicate (slice lo hi p)),
      take lo p @ filter predicate (slice lo hi p)
        @ filter (\<lambda>i. \<not> predicate i) (slice lo hi p) @ drop hi p)"

section \<open>The column-wise sort (sort.cc)\<close>

text \<open>
  \<open>LessThanComparator<type, descending>\<close> compares two row indices by the values of
  the column, with the arguments swapped for a descending key.
\<close>

definition LessThanComparator :: "bool \<Rightarrow> ('a::linorder) list \<Rightarrow> nat \<Rightarrow> nat \<Rightarrow> bool" where
  "LessThanComparator descending dat a b =
     (if descending then dat ! b < dat ! a else dat ! a < dat ! b)"

record Range =
  range_from :: nat
  range_to :: nat

definition NullPartitionPredicate :: "bool \<Rightarrow> bool list \<Rightarrow> nat \<Rightarrow> bool" where
  "NullPartitionPredicate descending nulls i = (nulls ! i \<noteq> descending)"

text \<open>
  SortNonNullRange sorts the range and, unless this is the last key column, scans it
  for runs of equal values: the body of the \<open>for (j = current_from + 1; j < source.to; ++j)\<close>
  loop is \<open>find_equal_runs_step\<close>, folded over the indices; every run longer than one
  row is pushed to \<open>target\<close>. The functions return the new \<open>target\<close> and permutation.
\<close>

definition find_equal_runs_step ::
  "(nat \<Rightarrow> nat \<Rightarrow> bool) \<Rightarrow> Permutation \<Rightarrow> nat \<Rightarrow> nat \<times> Range list \<Rightarrow> nat \<times> Range list" where
  "find_equal_runs_step lt p j st =
     (case st of (current_from, target) \<Rightarrow>
        if lt (p ! current_from) (p ! j)
        then (j, if j - current_from > 1
                 then target @ [\<lparr>range_from = current_from, range_to = j\<rparr>]
                 else target)
        else (current_from, target))"

definition SortNonNullRange ::
  "bool \<Rightarrow> ('a::linorder) list \<Rightarrow> Range \<Rightarrow> Range list \<Rightarrow> Permutation \<Rightarrow> bool
     \<Rightarrow> Range list \<times> Permutation" where
  "SortNonNullRange descending dat source target p is_last_column =
     (let lt = LessThanComparator descending dat;
          p' = Permutation_Sort (range_from source) (range_to source) lt p
      in if is_last_column then (target, p')
         else
           (case fold (find_equal_runs_step lt p')
                   [range_from source + 1 ..< range_to source] (range_from source, target) of
              (current_from, target') \<Rightarrow>
                (if range_to source - current_from > 1
                 then target' @ [\<lparr>range_from = current_from, range_to = range_to source\<rparr>]
                 else target',
                 p')))"

text \<open>
  SortRange. For a nullable column the range is partitioned first; \<open>null_partition\<close> is
  the source's \<open>partition\<close>, the number of rows on the first side. The second test
  reads \<open>source.to - partition > 1\<close> as in the source (all quantities are row counts, so
  the subtraction does not wrap).
\<close>

definition SortRange ::
  "bool \<Rightarrow> bool \<Rightarrow> ('a::linorder) list \<Rightarrow> bool list \<Rightarrow> Range \<Rightarrow> Range list \<Rightarrow> Permutation
     \<Rightarrow> bool \<Rightarrow> Range list \<times> Permutation" where
  "SortRange descending is_always_not_null dat nulls source target p is_last_column =
     (if is_always_not_null
      then SortNonNullRange descending dat source target p is_last_column
      else
        (case Permutation_Partition (range_from source) (range_to source)
                (NullPartitionPredicate descending nulls) p of
           (null_partition, p1) \<Rightarrow>
             (case (if null_partition > 1
                    then (let range = \<lparr>range_from = range_from source,
                                        range_to = range_from source + null_partition\<rparr>
                          in if descending
                             then SortNonNullRange True dat range target p1 is_last_column
                             else (if \<not> is_last_column then target @ [range] else target, p1))
                    else (target, p1)) of
                (target1, p2) \<Rightarrow>
                  (if range_to source - null_partition > 1
                   then (let range = \<lparr>range_from = range_from source + null_partition,
                                       range_to = range_to source\<rparr>
                         in if descending
                            then (if \<not> is_last_column then target1 @ [range] else target1, p2)
                            else SortNonNullRange False dat range target1 p2 is_last_column)
                   else (target1, p2)))))"

definition SortColumnResolved ::
  "bool \<Rightarrow> bool \<Rightarrow> ('a::linorder) list \<Rightarrow> bool list \<Rightarrow> Range list \<Rightarrow> Range list \<Rightarrow> Permutation
     \<Rightarrow> bool \<Rightarrow> Range list \<times> Permutation" where
  "SortColumnResolved descending is_always_not_null dat nulls source target p is_last_column =
     fold (\<lambda>i st. case st of (target', p') \<Rightarrow>
             SortRange descending is_always_not_null dat nulls i target' p' is_last_column)
          source (target, p)"

text \<open>
  SortColumn dispatches on \<open>is_null == NULL\<close> and on the direction. Without null bits
  the \<open>is_null\<close> argument of the resolved function is never read; it is \<open>[]\<close> here.
  SortTypedColumn and ColumnSorter only add the dispatch on the DataType.
\<close>

definition SortColumn ::
  "bool \<Rightarrow> ('a::linorder) list \<Rightarrow> bool list option \<Rightarrow> Range list \<Rightarrow> Range list \<Rightarrow> Permutation
     \<Rightarrow> bool \<Rightarrow> Range list \<times> Permutation" where
  "SortColumn descending dat nulls source target p is_last_column =
     (case nulls of
        None \<Rightarrow>
          (if descending
           then SortColumnResolved True True dat [] source target p is_last_column
           else SortColumnResolved False True dat [] source target p is_last_column)
      | Some bits \<Rightarrow>
          (if descending
           then SortColumnResolved True False dat bits source target p is_last_column
           else SortColumnResolved False False dat bits source target p is_last_column))"

text \<open>
  A BoundSortOrder gives, for each key in order of precedence, the position of its
  source attribute in the input view and its direction. \<open>sort_by_columns\<close> is the loop
  of SortPermutation over the key columns: \<open>is_last_column\<close> is \<open>i == num_columns - 1\<close>,
  the loop breaks when no target range is left, and the target ranges become the source
  ranges of the next column. SortPermutation starts it on the single range of all rows,
  after its \<open>CHECK_EQ(input.row_count(), permutation->size())\<close>.
\<close>

type_synonym BoundSortOrder = "(nat \<times> ColumnOrder) list"

fun sort_by_columns ::
  "BoundSortOrder \<Rightarrow> ('a::linorder) View \<Rightarrow> Range list \<Rightarrow> Permutation \<Rightarrow> Permutation" where
  "sort_by_columns [] input source_ranges p = p"
| "sort_by_columns (key # keys) input source_ranges p =
     (let input_column = columns input ! fst key in
      case SortColumn (snd key = DESCENDING) (data input_column) (is_null input_column)
             source_ranges [] p (keys = []) of
        (target_ranges, p') \<Rightarrow>
          if target_ranges = [] then p' else sort_by_columns keys input target_ranges p')"

definition SortPermutation ::
  "BoundSortOrder \<Rightarrow> ('a::linorder) View \<Rightarrow> Permutation \<Rightarrow> Permutation option" where
  "SortPermutation sort_order input p =
     (if row_count input \<noteq> length p then None
      else Some (sort_by_columns sort_order input
                   [\<lparr>range_from = 0, range_to = row_count input\<rparr>] p))"

section \<open>What sorted means\<close>

text \<open>
  The cell of a row in a column is \<open>None\<close> for NULL. NULLs are equal to each other
  and smaller than every value; a descending key reverses the comparison. Rows are
  compared key by key in the order of the sort order.
\<close>

fun cell_less :: "('a::linorder) option \<Rightarrow> 'a option \<Rightarrow> bool" where
  "cell_less None None = False"
| "cell_less None (Some y) = True"
| "cell_less (Some x) None = False"
| "cell_less (Some x) (Some y) = (x < y)"

definition cell :: "'a Column \<Rightarrow> nat \<Rightarrow> 'a option" where
  "cell c r =
     (case is_null c of
        None \<Rightarrow> Some (data c ! r)
      | Some bits \<Rightarrow> if bits ! r then None else Some (data c ! r))"

definition column_less :: "bool \<Rightarrow> ('a::linorder) Column \<Rightarrow> nat \<Rightarrow> nat \<Rightarrow> bool" where
  "column_less descending c a b =
     (if descending then cell_less (cell c b) (cell c a) else cell_less (cell c a) (cell c b))"

definition key_less :: "('a::linorder) View \<Rightarrow> nat \<times> ColumnOrder \<Rightarrow> nat \<Rightarrow> nat \<Rightarrow> bool" where
  "key_less input key a b =
     column_less (snd key = DESCENDING) (columns input ! fst key) a b"

fun row_less :: "BoundSortOrder \<Rightarrow> ('a::linorder) View \<Rightarrow> nat \<Rightarrow> nat \<Rightarrow> bool" where
  "row_less [] input a b = False"
| "row_less (key # keys) input a b =
     (key_less input key a b \<or> (\<not> key_less input key b a \<and> row_less keys input a b))"

definition keys_equal :: "('a::linorder) View \<Rightarrow> BoundSortOrder \<Rightarrow> nat \<Rightarrow> nat \<Rightarrow> bool" where
  "keys_equal input keys a b =
     (\<forall>key \<in> set keys. \<not> key_less input key a b \<and> \<not> key_less input key b a)"

text \<open>
  A well-formed view has \<open>row_count\<close> entries in every column, and a bound sort order
  names columns of the view. The output of the sort is the view read through the
  permutation.
\<close>

definition view_ok :: "'a View \<Rightarrow> bool" where
  "view_ok input =
     (\<forall>c \<in> set (columns input).
        length (data c) = row_count input \<and>
        (case is_null c of None \<Rightarrow> True | Some bits \<Rightarrow> length bits = row_count input))"

definition sort_order_ok :: "BoundSortOrder \<Rightarrow> 'a View \<Rightarrow> bool" where
  "sort_order_ok sort_order input = (\<forall>key \<in> set sort_order. fst key < length (columns input))"

definition row_of :: "'a View \<Rightarrow> nat \<Rightarrow> 'a option list" where
  "row_of input r = map (\<lambda>c. cell c r) (columns input)"

definition view_rows :: "'a View \<Rightarrow> 'a option list list" where
  "view_rows input = map (row_of input) [0..<row_count input]"

definition apply_permutation :: "'a View \<Rightarrow> Permutation \<Rightarrow> 'a option list list" where
  "apply_permutation input p = map (row_of input) p"

text \<open>The examples of the header comment of sort.cc, and a nullable column.\<close>

definition example_view :: "int View" where
  "example_view =
     \<lparr>columns = [\<lparr>data = [5, 4, 1, 4, 3, 3, 4], is_null = None\<rparr>,
                 \<lparr>data = [3, 2, 2, 5, 1, 3, 1], is_null = None\<rparr>],
      row_count = 7\<rparr>"

definition example_nullable_column :: "int Column" where
  "example_nullable_column =
     \<lparr>data = [5, 0, 3, 0, 1], is_null = Some [False, True, False, True, False]\<rparr>"

section \<open>Notions used in the proofs about the sort\<close>

text \<open>
  A comparator is a strict weak order when it is asymmetric and its complement is
  transitive. \<open>rearranged lo hi q q'\<close>: the lists agree outside the positions
  \<open>lo..<hi\<close> and hold the same elements inside.
\<close>

definition strict_weak_order :: "('a \<Rightarrow> 'a \<Rightarrow> bool) \<Rightarrow> bool" where
  "strict_weak_order lt =
     ((\<forall>a b. lt a b \<longrightarrow> \<not> lt b a) \<and> (\<forall>a b c. \<not> lt a b \<longrightarrow> \<not> lt b c \<longrightarrow> \<not> lt a c))"

definition rearranged :: "nat \<Rightarrow> nat \<Rightarrow> 'a list \<Rightarrow> 'a list \<Rightarrow> bool" where
  "rearranged lo hi q q' =
     (lo \<le> hi \<and> hi \<le> length q \<and> length q' = length q \<and>
      (\<forall>i < length q. i < lo \<or> hi \<le> i \<longrightarrow> q' ! i = q ! i) \<and>
      mset (slice lo hi q') = mset (slice lo hi q))"

definition ranges_ordered :: "nat \<Rightarrow> Range list \<Rightarrow> bool" where
  "ranges_ordered n rs =
     (sorted_wrt (\<lambda>r s. range_to r \<le> range_from s) rs \<and>
      (\<forall>r \<in> set rs. range_from r \<le> range_to r \<and> range_to r \<le> n))"

text \<open>
  \<open>runs_found\<close> is the invariant of the scan for runs after the indices below \<open>m\<close>;
  \<open>range_sorted\<close> is what sorting one range by a key with comparator \<open>kl\<close> achieves:
  the range is ordered, rows with equal keys keep the relative order \<open>ord\<close> they had,
  and the new target ranges are exactly the runs of equal keys.
\<close>

definition runs_found ::
  "(nat \<Rightarrow> nat \<Rightarrow> bool) \<Rightarrow> Permutation \<Rightarrow> nat \<Rightarrow> nat \<Rightarrow> nat \<Rightarrow> Range list \<Rightarrow> bool" where
  "runs_found lt p lo m current_from N =
     (lo \<le> current_from \<and> current_from < m \<and>
      sorted_wrt (\<lambda>r s. range_to r \<le> range_from s) N \<and>
      (\<forall>u \<in> set N. lo \<le> range_from u \<and> range_from u \<le> range_to u \<and>
           range_to u \<le> current_from \<and>
           (\<forall>i j. range_from u \<le> i \<and> i < j \<and> j < range_to u \<longrightarrow> \<not> lt (p ! i) (p ! j))) \<and>
      (\<forall>i. current_from \<le> i \<and> i < m \<longrightarrow> \<not> lt (p ! current_from) (p ! i)) \<and>
      (\<forall>i. lo \<le> i \<and> i < current_from \<longrightarrow> lt (p ! i) (p ! current_from)) \<and>
      (\<forall>i j. lo \<le> i \<and> i < j \<and> j < current_from \<and> \<not> lt (p ! i) (p ! j)
           \<longrightarrow> (\<exists>u \<in> set N. range_from u \<le> i \<and> j < range_to u)))"

definition range_sorted ::
  "(nat \<Rightarrow> nat \<Rightarrow> bool) \<Rightarrow> (nat \<Rightarrow> nat \<Rightarrow> bool) \<Rightarrow> bool \<Rightarrow> nat \<Rightarrow> nat
     \<Rightarrow> Range list \<Rightarrow> Permutation \<Rightarrow> Range list \<Rightarrow> Permutation \<Rightarrow> bool" where
  "range_sorted kl ord is_last lo hi T q T' q' =
     (rearranged lo hi q q' \<and>
      (\<forall>i j. lo \<le> i \<and> i < j \<and> j < hi \<longrightarrow> \<not> kl (q' ! j) (q' ! i)) \<and>
      ((\<forall>i j. lo \<le> i \<and> i < j \<and> j < hi \<longrightarrow> ord (q ! i) (q ! j)) \<longrightarrow>
       (\<forall>i j. lo \<le> i \<and> i < j \<and> j < hi \<and> \<not> kl (q' ! i) (q' ! j) \<longrightarrow> ord (q' ! i) (q' ! j))) \<and>
      (\<exists>N. T' = T @ N \<and>
           sorted_wrt (\<lambda>r s. range_to r \<le> range_from s) N \<and>
           (\<forall>u \<in> set N. lo \<le> range_from u \<and> range_from u \<le> range_to u \<and> range_to u \<le> hi \<and>
                (\<forall>i j. range_from u \<le> i \<and> i < j \<and> j < range_to u
                    \<longrightarrow> \<not> kl (q' ! i) (q' ! j))) \<and>
           (if is_last then N = []
            else (\<forall>i j. lo \<le> i \<and> i < j \<and> j < hi \<and> \<not> kl (q' ! i) (q' ! j)
                    \<longrightarrow> (\<exists>u \<in> set N. range_from u \<le> i \<and> j < range_to u)))))"

text \<open>
  \<open>sort_invariant\<close> holds between two key columns: \<open>E\<close> is equality on the keys
  sorted so far and \<open>L\<close> their lexicographic order. \<open>column_pass\<close> holds during the
  pass over the source ranges of one key column, \<open>Rrest\<close> being the ranges still to
  sort and \<open>T\<close> the target ranges found so far.
\<close>

definition key_relations ::
  "(nat \<Rightarrow> nat \<Rightarrow> bool) \<Rightarrow> (nat \<Rightarrow> nat \<Rightarrow> bool) \<Rightarrow> (nat \<Rightarrow> nat \<Rightarrow> bool) \<Rightarrow> bool" where
  "key_relations E L kl =
     ((\<forall>a. E a a) \<and> (\<forall>a b. E a b \<longrightarrow> E b a) \<and> (\<forall>a b c. E a b \<longrightarrow> E b c \<longrightarrow> E a c) \<and>
      (\<forall>a a' b b'. E a a' \<longrightarrow> E b b' \<longrightarrow> L a b = L a' b') \<and>
      strict_weak_order kl)"

definition sort_invariant ::
  "(nat \<Rightarrow> nat \<Rightarrow> bool) \<Rightarrow> (nat \<Rightarrow> nat \<Rightarrow> bool) \<Rightarrow> (nat \<Rightarrow> nat \<Rightarrow> bool)
     \<Rightarrow> Range list \<Rightarrow> Permutation \<Rightarrow> bool" where
  "sort_invariant E L ord R p =
     (ranges_ordered (length p) R \<and>
      (\<forall>r \<in> set R. \<forall>i j. range_from r \<le> i \<and> i < range_to r \<and> range_from r \<le> j \<and> j < range_to r
           \<longrightarrow> E (p ! i) (p ! j)) \<and>
      (\<forall>i j. i < j \<and> j < length p \<and> E (p ! i) (p ! j)
           \<longrightarrow> (\<exists>r \<in> set R. range_from r \<le> i \<and> j < range_to r) \<and> ord (p ! i) (p ! j)) \<and>
      (\<forall>i j. i < j \<and> j < length p \<longrightarrow> \<not> L (p ! j) (p ! i)))"

definition column_pass ::
  "(nat \<Rightarrow> nat \<Rightarrow> bool) \<Rightarrow> (nat \<Rightarrow> nat \<Rightarrow> bool) \<Rightarrow> (nat \<Rightarrow> nat \<Rightarrow> bool) \<Rightarrow> (nat \<Rightarrow> nat \<Rightarrow> bool)
     \<Rightarrow> bool \<Rightarrow> Range list \<Rightarrow> Range list \<Rightarrow> Permutation \<Rightarrow> bool" where
  "column_pass E L kl ord is_last Rrest T q =
     (ranges_ordered (length q) (T @ Rrest) \<and>
      (\<forall>r \<in> set Rrest. \<forall>i j. range_from r \<le> i \<and> i < range_to r \<and> range_from r \<le> j \<and> j < range_to r
           \<longrightarrow> E (q ! i) (q ! j)) \<and>
      (\<forall>t \<in> set T. \<forall>i j. range_from t \<le> i \<and> i < j \<and> j < range_to t
           \<longrightarrow> E (q ! i) (q ! j) \<and> \<not> kl (q ! i) (q ! j)) \<and>
      (\<forall>i j. i < j \<and> j < length q \<and> E (q ! i) (q ! j) \<longrightarrow>
           (\<exists>r \<in> set Rrest. range_from r \<le> i \<and> j < range_to r) \<or>
           ((\<forall>r \<in> set Rrest. j < range_from r) \<and> \<not> kl (q ! j) (q ! i) \<and>
            (is_last \<or> kl (q ! i) (q ! j) \<or> (\<exists>t \<in> set T. range_from t \<le> i \<and> j < range_to t)))) \<and>
      (\<forall>i j. i < j \<and> j < length q \<and> E (q ! i) (q ! j) \<and>
             ((\<exists>r \<in> set Rrest. range_from r \<le> i \<and> j < range_to r) \<or> \<not> kl (q ! i) (q ! j))
           \<longrightarrow> ord (q ! i) (q ! j)) \<and>
      (is_last \<longrightarrow> T = []) \<and>
      (\<forall>i j. i < j \<and> j < length q \<longrightarrow> \<not> L (q ! j) (q ! i)))"

section \<open>Rows, tables and merging\<close>

text \<open>
  A row of a view is the list of its cells. \<open>tuple_less\<close> compares two rows under a
  bound sort order the way \<open>row_less\<close> compares two rows of one view.
\<close>

type_synonym 'a row = "'a option list"

fun tuple_less :: "BoundSortOrder \<Rightarrow> ('a::linorder) row \<Rightarrow> 'a row \<Rightarrow> bool" where
  "tuple_less [] x y = False"
| "tuple_less (key # keys) x y =
     ((if snd key = DESCENDING then cell_less (y ! fst key) (x ! fst key)
       else cell_less (x ! fst key) (y ! fst key))
      \<or> (\<not> (if snd key = DESCENDING then cell_less (x ! fst key) (y ! fst key)
             else cell_less (y ! fst key) (x ! fst key))
         \<and> tuple_less keys x y))"

text \<open>
  Modelled from the spec: Table and TableSink (the materialization table of the sort)
  are declared outside the sources at hand. The spec describes the table as a growable
  block into which incoming views are copied, and which is cleared after a spill. The
  table is modelled by its view: \<open>Table_append t d k\<close> copies the first \<open>k\<close> rows of
  \<open>d\<close> behind the rows of \<open>t\<close>, \<open>Table_Clear\<close> drops all rows, \<open>view_drop k d\<close> is
  the rest of a view after its first \<open>k\<close> rows.
\<close>

definition null_bits :: "'a Column \<Rightarrow> bool list" where
  "null_bits c = (case is_null c of None \<Rightarrow> replicate (length (data c)) False | Some bits \<Rightarrow> bits)"

definition take_column :: "nat \<Rightarrow> 'a Column \<Rightarrow> 'a Column" where
  "take_column k c = \<lparr>data = take k (data c), is_null = map_option (take k) (is_null c)\<rparr>"

definition drop_column :: "nat \<Rightarrow> 'a Column \<Rightarrow> 'a Column" where
  "drop_column k c = \<lparr>data = drop k (data c), is_null = map_option (drop k) (is_null c)\<rparr>"

definition append_column :: "'a Column \<Rightarrow> 'a Column \<Rightarrow> 'a Column" where
  "append_column c d =
     \<lparr>data = data c @ data d,
      is_null = (if is_null c = None \<and> is_null d = None then None
                 else Some (null_bits c @ null_bits d))\<rparr>"

definition view_take :: "nat \<Rightarrow> 'a View \<Rightarrow> 'a View" where
  "view_take k v = \<lparr>columns = map (take_column k) (columns v), row_count = min k (row_count v)\<rparr>"

definition view_drop :: "nat \<Rightarrow> 'a View \<Rightarrow> 'a View" where
  "view_drop k v = \<lparr>columns = map (drop_column k) (columns v), row_count = row_count v - k\<rparr>"

definition Table_append :: "'a View \<Rightarrow> 'a View \<Rightarrow> nat \<Rightarrow> 'a View" where
  "Table_append t d k =
     \<lparr>columns = map2 append_column (columns t) (columns (view_take k d)),
      row_count = row_count t + min k (row_count d)\<rparr>"

definition Table_Clear :: "'a View \<Rightarrow> 'a View" where
  "Table_Clear t = view_take 0 t"

text \<open>
  Modelled from the spec: BoundMergeUnionAll is declared outside the sources at hand.
  The spec: it reads the head of each sorted input, selects the minimum under the sort
  order and advances; ties go to the input with the lower index. A cursor over sorted
  rows is the list of its rows. \<open>select_minimum\<close> gives the index of the input to read
  next: the first input wins unless the head of a later one is strictly smaller.
\<close>

fun select_minimum :: "('r \<Rightarrow> 'r \<Rightarrow> bool) \<Rightarrow> 'r list list \<Rightarrow> nat option" where
  "select_minimum lt [] = None"
| "select_minimum lt (c # cs) =
     (case select_minimum lt cs of
        None \<Rightarrow> (if c = [] then None else Some 0)
      | Some j \<Rightarrow> (if c = [] then Some (Suc j)
                   else if lt (hd (cs ! j)) (hd c) then Some (Suc j) else Some 0))"

lemma select_minimum_Some:
  "select_minimum lt cs = Some i \<Longrightarrow> i < length cs \<and> cs ! i \<noteq> []"
proof (induction cs arbitrary: i)
  case Nil
  then show ?case by simp
next
  case (Cons c cs)
  then show ?case by (auto split: option.splits if_splits)
qed

function merge_union_all :: "('r \<Rightarrow> 'r \<Rightarrow> bool) \<Rightarrow> 'r list list \<Rightarrow> 'r list" where
  "merge_union_all lt cs =
     (case select_minimum lt cs of
        None \<Rightarrow> []
      | Some i \<Rightarrow> hd (cs ! i) # merge_union_all lt (cs[i := tl (cs ! i)]))"
  by pat_completeness auto
termination
proof (relation "measure (\<lambda>(lt, cs). length (concat cs))")
  show "wf (measure (\<lambda>(lt, cs). length (concat cs)))" by simp
next
  fix lt :: "'r \<Rightarrow> 'r \<Rightarrow> bool" and cs :: "'r list list" and i
  assume "select_minimum lt cs = Some i"
  then have i: "i < length cs" "cs ! i \<noteq> []" using select_minimum_Some by blast+
  have a: "cs = take i cs @ cs ! i # drop (Suc i) cs" using i by (simp add: id_take_nth_drop)
  have b: "cs[i := tl (cs ! i)] = take i cs @ tl (cs ! i) # drop (Suc i) cs"
    using i by (simp add: upd_conv_take_nth_drop)
  have "length (concat cs) = length (concat (take i cs)) + length (cs ! i)
      + length (concat (drop (Suc i) cs))"
    by (subst a) simp
  moreover have "length (concat (cs[i := tl (cs ! i)])) = length (concat (take i cs))
      + length (tl (cs ! i)) + length (concat (drop (Suc i) cs))"
    by (subst b) simp
  moreover have "length (tl (cs ! i)) < length (cs ! i)" using i by (cases "cs ! i") auto
  ultimately show "((lt, cs[i := tl (cs ! i)]), (lt, cs)) \<in> measure (\<lambda>(lt, cs). length (concat cs))"
    by simp
qed

definition BoundMergeUnionAll :: "BoundSortOrder \<Rightarrow> ('a::linorder) row list list \<Rightarrow> 'a row list" where
  "BoundMergeUnionAll sort_order cursors = merge_union_all (tuple_less sort_order) cursors"

section \<open>Merger and sorters (sort.cc)\<close>

text \<open>
  BasicMerger keeps the temporary files of the sorted runs added so far; a file is the
  list of the rows written to it. The members of the classes carry the suffix \<open>_m\<close>
  here (\<open>file_buffers_\<close> is \<open>file_buffers_m\<close>).
\<close>

record 'r BasicMerger =
  file_buffers_m :: "'r list list"

text \<open>
  BasicMerger::AddSorted. TempFile::Create, FileOutput, Writer::WriteAll and
  Sink::Finalize are outside the sources at hand, so what they answer enters as
  arguments: whether the temporary file was created, the result of
  \<open>part_writer.WriteAll(file_sink)\<close> on the cursor (the rows that reached the file, or
  the failure) and the result of \<open>file_sink->Finalize()\<close>. The barrier test comes
  first; then the failure of the write is propagated before that of the finalization.
\<close>

definition AddSorted ::
  "bool \<Rightarrow> ('c \<Rightarrow> ReturnCode + 'r list) \<Rightarrow> (ReturnCode + unit) \<Rightarrow> 'r BasicMerger \<Rightarrow> 'c
     \<Rightarrow> ReturnCode + 'r BasicMerger" where
  "AddSorted temp_file_created WriteAll file_sink_finalize_result merger cursor =
     (if \<not> temp_file_created then Inl ERROR_TEMP_FILE_CREATION_ERROR
      else
        (case WriteAll cursor of
           Inl e \<Rightarrow> (if e = WAITING_ON_BARRIER then Inl ERROR_NOT_IMPLEMENTED else Inl e)
         | Inr rows_written \<Rightarrow>
             (case file_sink_finalize_result of
                Inl e \<Rightarrow> Inl e
              | Inr u \<Rightarrow> Inr (merger\<lparr>file_buffers_m := file_buffers_m merger @ [rows_written]\<rparr>))))"

text \<open>
  Modelled from the spec: Writer is declared outside the sources at hand. The spec: when
  the child returns WaitingOnBarrier during the drain, the sort cursor propagates it
  without losing partial state. SortCursor::ProcessData and SortCursor::Next show how
  its Writer reports that: \<open>WriteAll\<close> returns without a failure, and
  \<open>is_waiting_on_barrier()\<close> holds afterwards. \<open>WriteAll_until_barrier k cursor\<close> is
  the outcome of WriteAll on a source cursor that reports WAITING_ON_BARRIER after its
  first \<open>k\<close> rows: these rows have reached the sink.
\<close>

record 'r Writer_outcome =
  write_all_result :: "ReturnCode + 'r list"
  is_waiting_on_barrier :: bool

definition WriteAll_until_barrier :: "nat \<Rightarrow> 'r list \<Rightarrow> 'r Writer_outcome" where
  "WriteAll_until_barrier k cursor =
     \<lparr>write_all_result = Inr (take k cursor), is_waiting_on_barrier = (k < length cursor)\<rparr>"

text \<open>
  The collaborators of the sorters that are outside the sources at hand, as one record:
  the answers of the file layer, \<open>TableSink::Write\<close> (how many rows of the data the
  table took, given the table) and BoundScanViewWithSelection (the cursor over a view
  read through a permutation, or a failure).
\<close>

record 'a sorter_io =
  TempFile_Create :: bool
  Writer_WriteAll :: "'a row list \<Rightarrow> ReturnCode + 'a row list"
  Sink_Finalize :: "ReturnCode + unit"
  FileInput :: "'a row list \<Rightarrow> ReturnCode + 'a row list"
  TableSink_Write :: "'a View \<Rightarrow> 'a View \<Rightarrow> ReturnCode + nat"
  ScanViewWithSelection :: "'a View \<Rightarrow> Permutation \<Rightarrow> ReturnCode + 'a row list"

text \<open>
  BasicMerger::Merge opens the files from the back of \<open>file_buffers_\<close>, so the cursor
  of the last run comes first; the additional cursor, when there is one, is the last
  source of the merge.
\<close>

fun open_file_cursors :: "'a sorter_io \<Rightarrow> 'a row list list \<Rightarrow> ReturnCode + 'a row list list" where
  "open_file_cursors io [] = Inr []"
| "open_file_cursors io (f # fs) =
     (case FileInput io f of
        Inl e \<Rightarrow> Inl e
      | Inr file_cursor \<Rightarrow>
          (case open_file_cursors io fs of
             Inl e \<Rightarrow> Inl e
           | Inr merged_cursors \<Rightarrow> Inr (file_cursor # merged_cursors)))"

definition Merge ::
  "('a::linorder) sorter_io \<Rightarrow> 'a row BasicMerger \<Rightarrow> BoundSortOrder \<Rightarrow> 'a row list option
     \<Rightarrow> ReturnCode + 'a row list" where
  "Merge io merger sort_order additional =
     (case open_file_cursors io (rev (file_buffers_m merger)) of
        Inl e \<Rightarrow> Inl e
      | Inr merged_cursors \<Rightarrow>
          Inr (BoundMergeUnionAll sort_order
                 (case additional of None \<Rightarrow> merged_cursors
                  | Some c \<Rightarrow> merged_cursors @ [c])))"

record 'a UnbufferedSorter =
  sort_order_m :: BoundSortOrder
  merger_m :: "'a row BasicMerger"

record 'a BufferingSorter =
  memory_buffer_m :: "'a View"
  unbuffered_sorter_m :: "'a UnbufferedSorter"

definition SortView ::
  "('a::linorder) sorter_io \<Rightarrow> BoundSortOrder \<Rightarrow> 'a View \<Rightarrow> ReturnCode + 'a row list" where
  "SortView io bound_sort_order view =
     (case SortPermutation bound_sort_order view (Permutation_new (row_count view)) of
        None \<Rightarrow> Inl CHECK_FAILED
      | Some permutation \<Rightarrow> ScanViewWithSelection io view permutation)"

definition UnbufferedSorter_Write ::
  "('a::linorder) sorter_io \<Rightarrow> 'a UnbufferedSorter \<Rightarrow> 'a View
     \<Rightarrow> ReturnCode + (nat \<times> 'a UnbufferedSorter)" where
  "UnbufferedSorter_Write io s dat =
     (case SortView io (sort_order_m s) dat of
        Inl e \<Rightarrow> Inl e
      | Inr sorted_rows \<Rightarrow>
          (case AddSorted (TempFile_Create io) (Writer_WriteAll io) (Sink_Finalize io)
                  (merger_m s) sorted_rows of
             Inl e \<Rightarrow> Inl e
           | Inr m \<Rightarrow> Inr (row_count dat, s\<lparr>merger_m := m\<rparr>)))"

definition GetResultCursorMergedWith ::
  "('a::linorder) sorter_io \<Rightarrow> 'a UnbufferedSorter \<Rightarrow> 'a row list option
     \<Rightarrow> ReturnCode + 'a row list" where
  "GetResultCursorMergedWith io s sorted_cursor =
     (case sorted_cursor of
        Some c \<Rightarrow> (if file_buffers_m (merger_m s) = [] then Inr c
                   else Merge io (merger_m s) (sort_order_m s) sorted_cursor)
      | None \<Rightarrow> Merge io (merger_m s) (sort_order_m s) sorted_cursor)"

text \<open>
  BufferingSorter::Flush spills the table as one sorted run when it holds rows, and
  clears it. (\<open>Compact\<close> only returns memory.) BufferingSorter::Write tries the table,
  flushes when nothing was copied, and tries once more.
\<close>

definition Flush ::
  "('a::linorder) sorter_io \<Rightarrow> 'a BufferingSorter \<Rightarrow> ReturnCode + 'a BufferingSorter" where
  "Flush io s =
     (if row_count (memory_buffer_m s) > 0 then
        (case UnbufferedSorter_Write io (unbuffered_sorter_m s) (memory_buffer_m s) of
           Inl e \<Rightarrow> Inl e
         | Inr (written, u) \<Rightarrow>
             if written \<noteq> row_count (memory_buffer_m s) then Inl CHECK_FAILED
             else Inr (s\<lparr>memory_buffer_m := Table_Clear (memory_buffer_m s),
                         unbuffered_sorter_m := u\<rparr>))
      else Inr s)"

definition BufferingSorter_Write ::
  "('a::linorder) sorter_io \<Rightarrow> 'a BufferingSorter \<Rightarrow> 'a View
     \<Rightarrow> ReturnCode + (nat \<times> 'a BufferingSorter)" where
  "BufferingSorter_Write io s dat =
     (case TableSink_Write io (memory_buffer_m s) dat of
        Inl e \<Rightarrow> Inl e
      | Inr written \<Rightarrow>
          if written > 0
          then Inr (written, s\<lparr>memory_buffer_m := Table_append (memory_buffer_m s) dat written\<rparr>)
          else
            (case Flush io s of
               Inl e \<Rightarrow> Inl e
             | Inr s1 \<Rightarrow>
                 if row_count (memory_buffer_m s1) \<noteq> 0 then Inl CHECK_FAILED
                 else
                   (case TableSink_Write io (memory_buffer_m s1) dat of
                      Inl e \<Rightarrow> Inl e
                    | Inr written2 \<Rightarrow>
                        if written2 > 0
                        then Inr (written2,
                                  s1\<lparr>memory_buffer_m := Table_append (memory_buffer_m s1) dat written2\<rparr>)
                        else Inl ERROR_MEMORY_EXCEEDED)))"

definition GetResultCursor ::
  "('a::linorder) sorter_io \<Rightarrow> 'a BufferingSorter \<Rightarrow> ReturnCode + 'a row list" where
  "GetResultCursor io s =
     (case SortView io (sort_order_m (unbuffered_sorter_m s)) (memory_buffer_m s) of
        Inl e \<Rightarrow> Inl e
      | Inr last_sorted \<Rightarrow>
          GetResultCursorMergedWith io (unbuffered_sorter_m s) (Some last_sorted))"

text \<open>
  Modelled from the spec: an environment in which the file layer works. The temporary
  file is created, the Writer writes every row of the cursor, FileInput gives back the
  rows of the file, and BoundScanViewWithSelection is the view read through the
  permutation. \<open>fits t d\<close> is the number of rows of the data \<open>d\<close> that the table
  \<open>t\<close> takes under the memory quota; \<open>room_for capacity\<close> is a table that holds up
  to \<open>capacity\<close> rows.
\<close>

definition spill_io :: "('a View \<Rightarrow> 'a View \<Rightarrow> nat) \<Rightarrow> 'a sorter_io" where
  "spill_io fits =
     \<lparr>TempFile_Create = True,
      Writer_WriteAll = (\<lambda>cursor. Inr cursor),
      Sink_Finalize = Inr (),
      FileInput = (\<lambda>file. Inr file),
      TableSink_Write = (\<lambda>t d. Inr (fits t d)),
      ScanViewWithSelection = (\<lambda>view permutation. Inr (apply_permutation view permutation))\<rparr>"

definition room_for :: "nat \<Rightarrow> 'a View \<Rightarrow> 'a View \<Rightarrow> nat" where
  "room_for capacity t d = min (row_count d) (capacity - row_count t)"

text \<open>A table of one INT column without NULLs, and a sorter holding it.\<close>

definition one_column_view :: "int list \<Rightarrow> int View" where
  "one_column_view xs = \<lparr>columns = [\<lparr>data = xs, is_null = None\<rparr>], row_count = length xs\<rparr>"

definition example_sorter :: "int list \<Rightarrow> int row list list \<Rightarrow> int BufferingSorter" where
  "example_sorter table_rows files =
     \<lparr>memory_buffer_m = one_column_view table_rows,
      unbuffered_sorter_m =
        \<lparr>sort_order_m = [(0, ASCENDING)], merger_m = \<lparr>file_buffers_m = files\<rparr>\<rparr>\<rparr>"

text \<open>
  CreateBufferingSorter: the table of the new sorter has the columns of the schema and
  no rows, and the merger has no files. Below it, a view of one row with a key and a
  payload, and a sorter by the key that holds a table and files.
\<close>

definition CreateBufferingSorter :: "nat \<Rightarrow> BoundSortOrder \<Rightarrow> 'a BufferingSorter" where
  "CreateBufferingSorter column_count bound_sort_order =
     \<lparr>memory_buffer_m =
        \<lparr>columns = replicate column_count \<lparr>data = [], is_null = None\<rparr>, row_count = 0\<rparr>,
      unbuffered_sorter_m =
        \<lparr>sort_order_m = bound_sort_order, merger_m = \<lparr>file_buffers_m = []\<rparr>\<rparr>\<rparr>"



section \<open>The pass of the sort cursor over its input (sort.cc)\<close>

lemma BufferingSorter_Write_positive:
  assumes "BufferingSorter_Write io s dat = Inr (written, s')"
  shows "0 < written"
  using assms
  by (auto simp: BufferingSorter_Write_def split: sum.splits if_splits)

text \<open>
  Modelled from the spec: Writer and SorterSink are declared outside the sources at
  hand. The spec: the sort cursor drains its child, copying the incoming views into the
  sorter. \<open>Writer::WriteAll\<close> hands each view of the child to the sink, and hands the
  rest of a view over again while the sink has taken only a part of it; a failure of
  the sink ends the pass. The child is the list of the views it returns.
\<close>

function write_view ::
  "('a::linorder) sorter_io \<Rightarrow> 'a BufferingSorter \<Rightarrow> 'a View \<Rightarrow> ReturnCode + 'a BufferingSorter" where
  "write_view io s dat =
     (if row_count dat = 0 then Inr s
      else
        (case BufferingSorter_Write io s dat of
           Inl e \<Rightarrow> Inl e
         | Inr (written, s') \<Rightarrow> write_view io s' (view_drop written dat)))"
  by pat_completeness auto
termination
proof (relation "measure (\<lambda>(io, s, dat). row_count dat)")
  show "wf (measure (\<lambda>(io, s, dat). row_count dat))" by simp
next
  fix io :: "'a sorter_io" and s :: "'a BufferingSorter" and dat :: "'a View"
    and x2 x y
  assume n: "row_count dat \<noteq> 0" and w: "BufferingSorter_Write io s dat = Inr x2"
    and x: "(x, y) = x2"
  from w x have "BufferingSorter_Write io s dat = Inr (x, y)" by simp
  then have "0 < x" by (rule BufferingSorter_Write_positive)
  with n show "((io, y, view_drop x dat), (io, s, dat)) \<in> measure (\<lambda>(io, s, dat). row_count dat)"
    by (simp add: view_drop_def)
qed

declare write_view.simps [simp del]

fun write_all ::
  "('a::linorder) sorter_io \<Rightarrow> 'a BufferingSorter \<Rightarrow> 'a View list
     \<Rightarrow> ReturnCode + 'a BufferingSorter" where
  "write_all io s [] = Inr s"
| "write_all io s (dat # views) =
     (case write_view io s dat of
        Inl e \<Rightarrow> Inl e
      | Inr s' \<Rightarrow> write_all io s' views)"

text \<open>
  SortCursor::ProcessData writes the whole input to a new sorter and takes the sorter's
  result cursor; the input is taken not to wait on a barrier. The rows of the result
  cursor are the output of the sort before the result projection.
\<close>

definition ProcessData ::
  "('a::linorder) sorter_io \<Rightarrow> BoundSortOrder \<Rightarrow> nat \<Rightarrow> 'a View list
     \<Rightarrow> ReturnCode + 'a row list" where
  "ProcessData io bound_sort_order column_count views =
     (case write_all io (CreateBufferingSorter column_count bound_sort_order) views of
        Inl e \<Rightarrow> Inl e
      | Inr s \<Rightarrow> GetResultCursor io s)"

text \<open>
  The two sorts that are compared: the external sort, whose table takes \<open>fits t d\<close>
  rows of the data \<open>d\<close> when it holds \<open>t\<close>, and the sort in memory, whose table takes
  every row. A memory quota larger than one row means that the table takes no more rows
  than it is given, and at least one row when it is empty.
\<close>

definition unbounded_memory :: "'a View \<Rightarrow> 'a View \<Rightarrow> nat" where
  "unbounded_memory t d = row_count d"

definition quota_above_one_row :: "('a View \<Rightarrow> 'a View \<Rightarrow> nat) \<Rightarrow> bool" where
  "quota_above_one_row fits =
     (\<forall>t d. fits t d \<le> row_count d \<and> (row_count t = 0 \<and> 0 < row_count d \<longrightarrow> 0 < fits t d))"

definition external_sort ::
  "(('a::linorder) View \<Rightarrow> 'a View \<Rightarrow> nat) \<Rightarrow> BoundSortOrder \<Rightarrow> nat \<Rightarrow> 'a View list
     \<Rightarrow> ReturnCode + 'a row list" where
  "external_sort fits bound_sort_order column_count views =
     ProcessData (spill_io fits) bound_sort_order column_count views"

definition in_memory_sort ::
  "BoundSortOrder \<Rightarrow> nat \<Rightarrow> ('a::linorder) View list \<Rightarrow> ReturnCode + 'a row list" where
  "in_memory_sort bound_sort_order column_count views =
     ProcessData (spill_io unbounded_memory) bound_sort_order column_count views"

text \<open>The input of a sort: views of \<open>column_count\<close> well-formed columns, and keys that
  name columns of them. The state of the sorter between two writes: the runs in the
  files are sorted, and the table is well formed.\<close>

definition column_ok :: "nat \<Rightarrow> 'a Column \<Rightarrow> bool" where
  "column_ok n c =
     (length (data c) = n \<and> (case is_null c of None \<Rightarrow> True | Some bits \<Rightarrow> length bits = n))"

definition input_ok :: "BoundSortOrder \<Rightarrow> nat \<Rightarrow> 'a View list \<Rightarrow> bool" where
  "input_ok bound_sort_order column_count views =
     ((\<forall>key \<in> set bound_sort_order. fst key < column_count) \<and>
      (\<forall>v \<in> set views. view_ok v \<and> length (columns v) = column_count))"

definition non_decreasing :: "BoundSortOrder \<Rightarrow> ('a::linorder) row list \<Rightarrow> bool" where
  "non_decreasing bound_sort_order rows =
     sorted_wrt (\<lambda>x y. \<not> tuple_less bound_sort_order y x) rows"

definition sorter_ok :: "BoundSortOrder \<Rightarrow> nat \<Rightarrow> ('a::linorder) BufferingSorter \<Rightarrow> bool" where
  "sorter_ok bound_sort_order column_count s =
     (view_ok (memory_buffer_m s) \<and> length (columns (memory_buffer_m s)) = column_count \<and>
      sort_order_m (unbuffered_sorter_m s) = bound_sort_order \<and>
      (\<forall>f \<in> set (file_buffers_m (merger_m (unbuffered_sorter_m s))).
         non_decreasing bound_sort_order f))"

definition sorter_rows :: "'a BufferingSorter \<Rightarrow> 'a row multiset" where
  "sorter_rows s =
     mset (concat (file_buffers_m (merger_m (unbuffered_sorter_m s))))
     + mset (view_rows (memory_buffer_m s))"

definition example_equal_keys :: "int View" where
  "example_equal_keys =
     \<lparr>columns = [\<lparr>data = [1, 1, 1], is_null = None\<rparr>, \<lparr>data = [10, 20, 30], is_null = None\<rparr>],
      row_count = 3\<rparr>"

section \<open>Schemas, projectors and BoundSort (sort.cc)\<close>

record Attribute =
  attribute_name_m :: string
  attribute_type :: DataType
  is_nullable :: bool

type_synonym TupleSchema = "Attribute list"

text \<open>
  Modelled from the spec: BoundSingleSourceProjector, ProjectAllAttributes and
  BoundProject are declared outside the sources at hand. The spec: a bound projector
  maps each output position to a source attribute position, and a projection applied
  to a view selects the chosen columns. \<open>Add\<close> appends a source position, as
  BoundExtendedSort uses it (\<open>output_projector->Add(i)\<close>); binding
  ProjectAllAttributes to a schema adds every position of the schema in order.
\<close>

record BoundSingleSourceProjector =
  source_schema :: TupleSchema
  projected_positions :: "nat list"

definition BoundSingleSourceProjector_new :: "TupleSchema \<Rightarrow> BoundSingleSourceProjector" where
  "BoundSingleSourceProjector_new schema = \<lparr>source_schema = schema, projected_positions = []\<rparr>"

definition Add :: "BoundSingleSourceProjector \<Rightarrow> nat \<Rightarrow> BoundSingleSourceProjector" where
  "Add projector position =
     projector\<lparr>projected_positions := projected_positions projector @ [position]\<rparr>"

definition result_schema :: "BoundSingleSourceProjector \<Rightarrow> TupleSchema" where
  "result_schema projector =
     map (\<lambda>position. source_schema projector ! position) (projected_positions projector)"

definition ProjectAllAttributes_Bind :: "TupleSchema \<Rightarrow> BoundSingleSourceProjector" where
  "ProjectAllAttributes_Bind schema =
     fold (\<lambda>position projector. Add projector position) [0..<length schema]
       (BoundSingleSourceProjector_new schema)"

definition project_row :: "BoundSingleSourceProjector \<Rightarrow> 'v list \<Rightarrow> 'v list" where
  "project_row projector r = map (\<lambda>position. r ! position) (projected_positions projector)"

text \<open>
  A cursor is known here by its schema. SortCursor takes its own schema from the
  result projector (\<open>BasicCursor(result_projector->result_schema())\<close>) and keeps the
  projector for the rows of its result (SetResultWithProjection). BoundSort replaces a
  null result projector and always succeeds.
\<close>

record 'c Cursor =
  cursor_schema :: TupleSchema
  cursor_body :: 'c

record 'c SortCursor =
  sort_cursor_schema :: TupleSchema
  result_projector_m :: BoundSingleSourceProjector
  sort_cursor_order :: BoundSortOrder
  sort_cursor_memory_quota :: nat
  sort_cursor_temporary_directory_prefix :: string
  sort_cursor_child :: "'c Cursor"

definition BoundSort ::
  "BoundSortOrder \<Rightarrow> BoundSingleSourceProjector option \<Rightarrow> nat \<Rightarrow> string \<Rightarrow> 'c Cursor
     \<Rightarrow> ReturnCode + 'c SortCursor" where
  "BoundSort bound_sort_order result_projector memory_quota temporary_directory_prefix child =
     (let projector =
            (case result_projector of
               None \<Rightarrow> ProjectAllAttributes_Bind (cursor_schema child)
             | Some given \<Rightarrow> given)
      in Inr \<lparr>sort_cursor_schema = result_schema projector,
              result_projector_m = projector,
              sort_cursor_order = bound_sort_order,
              sort_cursor_memory_quota = memory_quota,
              sort_cursor_temporary_directory_prefix = temporary_directory_prefix,
              sort_cursor_child = child\<rparr>)"

definition example_schema :: TupleSchema where
  "example_schema =
     [\<lparr>attribute_name_m = ''a'', attribute_type = INT32, is_nullable = False\<rparr>,
      \<lparr>attribute_name_m = ''b'', attribute_type = STRING, is_nullable = True\<rparr>]"

section \<open>Bound expressions and Concat (expression.h, string_bound_expressions.cc)\<close>

datatype Nullability = NULLABLE | NOT_NULLABLE

text \<open>
  Modelled from the spec: CreateSchema and CheckAttributeCount are declared outside
  the sources at hand. The spec: an attribute is (name, type, nullability), and a
  schema is a list of attributes. CreateSchema builds the schema of one attribute;
  CheckAttributeCount fails unless the schema has the expected number of attributes.
\<close>

definition CreateSchema :: "string \<Rightarrow> DataType \<Rightarrow> Nullability \<Rightarrow> TupleSchema" where
  "CreateSchema name type nullability =
     [\<lparr>attribute_name_m = name, attribute_type = type,
       is_nullable = (nullability = NULLABLE)\<rparr>]"

definition CheckAttributeCount :: "TupleSchema \<Rightarrow> nat \<Rightarrow> ReturnCode option" where
  "CheckAttributeCount schema expected =
     (if length schema = expected then None else Some ERROR_ATTRIBUTE_COUNT_MISMATCH)"

text \<open>
  A bound expression (expression.h) has a result schema, a row capacity and the virtual
  method DoEvaluate. DoEvaluate reads the input view and the skip vector, may set bits
  of the skip vector, and returns a failure or its result view; the skip vector is
  shared storage, so the model returns it next to the result. The results at hand are
  views of one STRING column.
\<close>

type_synonym EvaluationResult = "ReturnCode + string View"

record 'a BoundExpression =
  result_schema_m :: TupleSchema
  row_capacity_m :: nat
  DoEvaluate :: "'a View \<Rightarrow> bool list \<Rightarrow> EvaluationResult \<times> bool list"

text \<open>
  BoundExpressionTree::Evaluate is documented in expression.h (``we use a pre-allocated
  empty skip vector''); its body is outside the sources at hand.
  Modelled from the spec: Evaluate runs DoEvaluate of the root with a skip vector of
  zero bits, one for each row of the input.
\<close>

record 'a BoundExpressionTree =
  root_m :: "'a BoundExpression"

definition Evaluate :: "'a BoundExpressionTree \<Rightarrow> 'a View \<Rightarrow> EvaluationResult" where
  "Evaluate tree input =
     fst (DoEvaluate (root_m tree) input (replicate (row_count input) False))"

text \<open>
  \<open>strncpy(destination, source, n)\<close> of the C library writes exactly \<open>n\<close> bytes: the bytes
  of the source up to its first NUL byte, at most \<open>n\<close> of them, and NUL bytes after them.
\<close>

definition strncpy :: "string \<Rightarrow> nat \<Rightarrow> string" where
  "strncpy source n =
     (let copied = takeWhile (\<lambda>c. c \<noteq> CHR 0x00) (take n source)
      in copied @ replicate (n - length copied) (CHR 0x00))"

text \<open>
  The body of the row loop of BoundConcatExpression::DoEvaluate: \<open>sources\<close> are the
  STRING columns of the argument results, and row \<open>i\<close> of the destination becomes
  \<open>StringPiece(new_str, length)\<close>. The arena is taken to have room for the string.
\<close>

definition concatenate_row :: "string list list \<Rightarrow> nat \<Rightarrow> string" where
  "concatenate_row sources i =
     (let length_sum = sum_list (map (\<lambda>source. length (source ! i)) sources);
          new_str = concat (map (\<lambda>source. strncpy (source ! i) (length (source ! i))) sources)
      in take length_sum new_str)"

text \<open>The first loop of DoEvaluate: every argument is evaluated, in order, with the same
  skip vector; the first failure is returned.\<close>

fun evaluate_arguments ::
  "'a BoundExpression list \<Rightarrow> 'a View \<Rightarrow> bool list
     \<Rightarrow> (ReturnCode + string View list) \<times> bool list" where
  "evaluate_arguments [] input skip_vector = (Inr [], skip_vector)"
| "evaluate_arguments (argument # arguments) input skip_vector =
     (case DoEvaluate argument input skip_vector of
        (Inl failure, skip_vector') \<Rightarrow> (Inl failure, skip_vector')
      | (Inr result, skip_vector') \<Rightarrow>
          (case evaluate_arguments arguments input skip_vector' of
             (Inl failure, skip_vector'') \<Rightarrow> (Inl failure, skip_vector'')
           | (Inr results, skip_vector'') \<Rightarrow> (Inr (result # results), skip_vector'')))"

text \<open>
  BoundConcatExpression::DoEvaluate. \<open>SelectivityIsGreaterThan\<close> is declared outside the
  sources at hand and is a parameter; \<open>destination\<close> is the content of the expression's
  block before the call, which the second loop leaves in place in the skipped rows.
  The result view has the row count of the input, and the skip vector as its null bits.
\<close>

definition BoundConcatExpression_DoEvaluate ::
  "(bool list \<Rightarrow> nat \<Rightarrow> nat \<Rightarrow> bool) \<Rightarrow> string list \<Rightarrow> 'a BoundExpression list
     \<Rightarrow> 'a View \<Rightarrow> bool list \<Rightarrow> EvaluationResult \<times> bool list" where
  "BoundConcatExpression_DoEvaluate SelectivityIsGreaterThan destination arguments input
       skip_vectors =
     (case evaluate_arguments arguments input skip_vectors of
        (Inl failure, skip_vector) \<Rightarrow> (Inl failure, skip_vector)
      | (Inr results, skip_vector) \<Rightarrow>
          (let sources = map (\<lambda>result. data (columns result ! 0)) results;
               written =
                 (if \<not> SelectivityIsGreaterThan skip_vector (row_count input) 100
                  then map (\<lambda>i. concatenate_row sources i) [0..<row_count input]
                  else map (\<lambda>i. if \<not> skip_vector ! i then concatenate_row sources i
                                 else destination ! i)
                         [0..<row_count input])
           in (Inr \<lparr>columns = [\<lparr>data = written, is_null = Some skip_vector\<rparr>],
                    row_count = row_count input\<rparr>,
               skip_vector)))"

definition GetExpressionType :: "'a BoundExpression \<Rightarrow> DataType" where
  "GetExpressionType expression = attribute_type (result_schema_m expression ! 0)"

text \<open>BoundToString returns a STRING argument as it is; the conversion of the other
  types, \<open>CreateToString\<close>, is built outside the sources at hand and is a parameter.\<close>

definition BoundToString ::
  "('a BoundExpression \<Rightarrow> ReturnCode + 'a BoundExpression) \<Rightarrow> 'a BoundExpression
     \<Rightarrow> ReturnCode + 'a BoundExpression" where
  "BoundToString CreateToString arg =
     (if GetExpressionType arg = STRING then Inr arg else CreateToString arg)"

fun stringify_arguments ::
  "('a BoundExpression \<Rightarrow> ReturnCode + 'a BoundExpression) \<Rightarrow> 'a BoundExpression list
     \<Rightarrow> ReturnCode + 'a BoundExpression list" where
  "stringify_arguments CreateToString [] = Inr []"
| "stringify_arguments CreateToString (child # args) =
     (case CheckAttributeCount (result_schema_m child) 1 of
        Some failure \<Rightarrow> Inl failure
      | None \<Rightarrow>
          (case BoundToString CreateToString child of
             Inl failure \<Rightarrow> Inl failure
           | Inr stringed \<Rightarrow>
               (case stringify_arguments CreateToString args of
                  Inl failure \<Rightarrow> Inl failure
                | Inr stringified_args \<Rightarrow> Inr (stringed # stringified_args))))"

fun concat_name_list :: "string list \<Rightarrow> string" where
  "concat_name_list [] = []"
| "concat_name_list [name] = name"
| "concat_name_list (name # other # names) = name @ '', '' @ concat_name_list (other # names)"

definition concat_name :: "'a BoundExpression list \<Rightarrow> string" where
  "concat_name stringified_args =
     ''CONCAT(''
     @ concat_name_list (map (\<lambda>arg. attribute_name_m (result_schema_m arg ! 0)) stringified_args)
     @ '')''"

definition concat_nullability :: "'a BoundExpression list \<Rightarrow> Nullability" where
  "concat_nullability stringified_args =
     fold (\<lambda>arg nullability.
             if is_nullable (result_schema_m arg ! 0) then NULLABLE else nullability)
       stringified_args NOT_NULLABLE"

text \<open>BoundConcatExpression::row_capacity: the least of the capacity of the block and of
  the capacities of the arguments.\<close>

definition BoundConcatExpression_row_capacity :: "nat \<Rightarrow> 'a BoundExpression list \<Rightarrow> nat" where
  "BoundConcatExpression_row_capacity block_capacity arguments =
     fold (\<lambda>argument capacity. min capacity (row_capacity_m argument)) arguments block_capacity"

text \<open>
  BoundConcat. Modelled from the spec: InitBasicExpression is declared outside the
  sources at hand; it allocates the block of the expression for \<open>max_row_count\<close> rows and
  fails when the allocator has no room. \<open>allocate\<close> stands for the allocator: the content
  of the new block's column, or nothing.
\<close>

definition BoundConcat ::
  "(bool list \<Rightarrow> nat \<Rightarrow> nat \<Rightarrow> bool)
     \<Rightarrow> ('a BoundExpression \<Rightarrow> ReturnCode + 'a BoundExpression)
     \<Rightarrow> (nat \<Rightarrow> string list option) \<Rightarrow> nat \<Rightarrow> 'a BoundExpression list
     \<Rightarrow> ReturnCode + 'a BoundExpression" where
  "BoundConcat SelectivityIsGreaterThan CreateToString allocate max_row_count args =
     (case stringify_arguments CreateToString args of
        Inl failure \<Rightarrow> Inl failure
      | Inr stringified_args \<Rightarrow>
          (case allocate max_row_count of
             None \<Rightarrow> Inl ERROR_MEMORY_EXCEEDED
           | Some destination \<Rightarrow>
               Inr \<lparr>result_schema_m =
                      CreateSchema (concat_name stringified_args) STRING
                        (concat_nullability stringified_args),
                    row_capacity_m =
                      BoundConcatExpression_row_capacity (length destination) stringified_args,
                    DoEvaluate =
                      BoundConcatExpression_DoEvaluate SelectivityIsGreaterThan destination
                        stringified_args\<rparr>))"

text \<open>
  Modelled from the spec: the expression that reads an attribute of the input is built
  outside the sources at hand. The spec: its result is the column of the input, and an
  expression sets the bit of the skip vector wherever its result is NULL.
\<close>

definition BoundAttributeAt :: "TupleSchema \<Rightarrow> nat \<Rightarrow> string BoundExpression" where
  "BoundAttributeAt schema position =
     \<lparr>result_schema_m = [schema ! position],
      row_capacity_m = 2 ^ 64 - 1,
      DoEvaluate = (\<lambda>input skip_vector.
        (let column = columns input ! position
         in (Inr \<lparr>columns = [column], row_count = row_count input\<rparr>,
             (case is_null column of
                None \<Rightarrow> skip_vector
              | Some bits \<Rightarrow> map (\<lambda>i. skip_vector ! i \<or> bits ! i) [0..<length skip_vector]))))\<rparr>"




definition string_schema :: "bool list \<Rightarrow> TupleSchema" where
  "string_schema nullable =
     map (\<lambda>n. \<lparr>attribute_name_m = ''s'', attribute_type = STRING, is_nullable = n\<rparr>) nullable"

definition allocate_rows :: "nat \<Rightarrow> string list option" where
  "allocate_rows max_row_count = Some (replicate max_row_count [])"

definition example_strings :: "string View" where
  "example_strings =
     \<lparr>columns = [\<lparr>data = [''a'', ''b''], is_null = None\<rparr>,
                 \<lparr>data = [''x'', ''y''], is_null = None\<rparr>],
      row_count = 2\<rparr>"

definition example_strings_null :: "string View" where
  "example_strings_null =
     \<lparr>columns = [\<lparr>data = [''a'', ''b''], is_null = Some [False, True]\<rparr>,
                 \<lparr>data = [''x'', ''y''], is_null = None\<rparr>],
      row_count = 2\<rparr>"

definition example_strings_NUL :: "string View" where
  "example_strings_NUL =
     \<lparr>columns = [\<lparr>data = [[CHR ''a'', CHR 0x00, CHR ''b'']], is_null = None\<rparr>,
                 \<lparr>data = [''c''], is_null = None\<rparr>],
      row_count = 1\<rparr>"

section \<open>Properties of the duplicate key check\<close>

lemma duplicate_key_pair_Cons:
  "duplicate_key_pair lt (k # ks) =
     ((\<exists>x \<in> set ks. attribute_name x = attribute_name k \<and>
          effectively_case_insensitive lt x = effectively_case_insensitive lt k)
      \<or> duplicate_key_pair lt ks)"
proof
  assume "duplicate_key_pair lt (k # ks)"
  then obtain i j where ij: "i < j" "j < length (k # ks)"
    "attribute_name ((k # ks) ! i) = attribute_name ((k # ks) ! j)"
    "effectively_case_insensitive lt ((k # ks) ! i) =
     effectively_case_insensitive lt ((k # ks) ! j)"
    unfolding duplicate_key_pair_def by blast
  from ij(1) obtain j' where j': "j = Suc j'" by (cases j) auto
  show "(\<exists>x \<in> set ks. attribute_name x = attribute_name k \<and>
          effectively_case_insensitive lt x = effectively_case_insensitive lt k)
      \<or> duplicate_key_pair lt ks"
  proof (cases i)
    case 0
    with ij j' have "ks ! j' \<in> set ks" "attribute_name (ks ! j') = attribute_name k"
      "effectively_case_insensitive lt (ks ! j') = effectively_case_insensitive lt k"
      by auto
    then show ?thesis by blast
  next
    case (Suc i')
    with ij j' have "i' < j'" "j' < length ks"
      "attribute_name (ks ! i') = attribute_name (ks ! j')"
      "effectively_case_insensitive lt (ks ! i') = effectively_case_insensitive lt (ks ! j')"
      by auto
    then have "duplicate_key_pair lt ks" unfolding duplicate_key_pair_def by blast
    then show ?thesis ..
  qed
next
  assume "(\<exists>x \<in> set ks. attribute_name x = attribute_name k \<and>
          effectively_case_insensitive lt x = effectively_case_insensitive lt k)
      \<or> duplicate_key_pair lt ks"
  then show "duplicate_key_pair lt (k # ks)"
  proof
    assume "\<exists>x \<in> set ks. attribute_name x = attribute_name k \<and>
          effectively_case_insensitive lt x = effectively_case_insensitive lt k"
    then obtain j where "j < length ks" "attribute_name (ks ! j) = attribute_name k"
      "effectively_case_insensitive lt (ks ! j) = effectively_case_insensitive lt k"
      by (auto simp: in_set_conv_nth)
    then have "0 < Suc j \<and> Suc j < length (k # ks) \<and>
        attribute_name ((k # ks) ! 0) = attribute_name ((k # ks) ! Suc j) \<and>
        effectively_case_insensitive lt ((k # ks) ! 0) =
        effectively_case_insensitive lt ((k # ks) ! Suc j)" by simp
    then show ?thesis unfolding duplicate_key_pair_def by blast
  next
    assume "duplicate_key_pair lt ks"
    then obtain i j where "i < j" "j < length ks"
      "attribute_name (ks ! i) = attribute_name (ks ! j)"
      "effectively_case_insensitive lt (ks ! i) = effectively_case_insensitive lt (ks ! j)"
      unfolding duplicate_key_pair_def by blast
    then have "Suc i < Suc j \<and> Suc j < length (k # ks) \<and>
        attribute_name ((k # ks) ! Suc i) = attribute_name ((k # ks) ! Suc j) \<and>
        effectively_case_insensitive lt ((k # ks) ! Suc i) =
        effectively_case_insensitive lt ((k # ks) ! Suc j)" by simp
    then show ?thesis unfolding duplicate_key_pair_def by blast
  qed
qed

lemma check_duplicate_keys_general:
  "check_duplicate_keys lt ks ci cs = Some e \<longleftrightarrow>
     e = ERROR_INVALID_ARGUMENT_VALUE \<and>
     ((\<exists>x \<in> set ks. if effectively_case_insensitive lt x
                        then attribute_name x \<in> ci else attribute_name x \<in> cs)
      \<or> duplicate_key_pair lt ks)"
proof (induction ks arbitrary: ci cs)
  case Nil
  show ?case by (simp add: duplicate_key_pair_def)
next
  case (Cons k ks)
  show ?case
    unfolding duplicate_key_pair_Cons
    by (simp add: Cons.IH effectively_case_insensitive_def) blast
qed

text \<open>
  C7. At bind time BoundExtendedSort fails in its duplicate key check, with
  ERROR_INVALID_ARGUMENT_VALUE, exactly when two sort keys name the same attribute and
  are both effectively case-insensitive or both effectively case-sensitive. A
  case-sensitive and a case-insensitive key on the same STRING attribute do not make
  such a pair, so the check lets them pass and BoundExtendedSort goes on to build its
  cursors.
\<close>

theorem BoundExtendedSort_duplicate_keys:
  "(check_duplicate_keys lookup_type keys {} {} = Some ERROR_INVALID_ARGUMENT_VALUE)
     = duplicate_key_pair lookup_type keys
   \<and> BoundExtendedSort lookup_type keys rest =
       (if duplicate_key_pair lookup_type keys then Inl ERROR_INVALID_ARGUMENT_VALUE else rest)"
proof -
  have g: "\<And>e. (check_duplicate_keys lookup_type keys {} {} = Some e) =
      (e = ERROR_INVALID_ARGUMENT_VALUE \<and> duplicate_key_pair lookup_type keys)"
    using check_duplicate_keys_general[of lookup_type keys "{}" "{}"] by simp
  show ?thesis
  proof (cases "check_duplicate_keys lookup_type keys {} {}")
    case None
    then have "\<not> duplicate_key_pair lookup_type keys" using g by auto
    with None show ?thesis by (simp add: BoundExtendedSort_def)
  next
    case (Some e)
    then have "e = ERROR_INVALID_ARGUMENT_VALUE" "duplicate_key_pair lookup_type keys"
      using g by auto
    with Some show ?thesis by (simp add: BoundExtendedSort_def)
  qed
qed

theorem BoundExtendedSort_duplicate_keys_witness:
  "BoundExtendedSort (\<lambda>n. STRING)
      [\<lparr>attribute_name = ''a'', case_sensitive = False, column_order = ASCENDING\<rparr>,
       \<lparr>attribute_name = ''b'', case_sensitive = True, column_order = ASCENDING\<rparr>,
       \<lparr>attribute_name = ''a'', case_sensitive = False, column_order = DESCENDING\<rparr>]
      (Inr (0::nat)) = Inl ERROR_INVALID_ARGUMENT_VALUE
   \<and> duplicate_key_pair (\<lambda>n. STRING)
      [\<lparr>attribute_name = ''a'', case_sensitive = False, column_order = ASCENDING\<rparr>,
       \<lparr>attribute_name = ''b'', case_sensitive = True, column_order = ASCENDING\<rparr>,
       \<lparr>attribute_name = ''a'', case_sensitive = False, column_order = DESCENDING\<rparr>]
   \<and> BoundExtendedSort (\<lambda>n. STRING)
      [\<lparr>attribute_name = ''a'', case_sensitive = True, column_order = ASCENDING\<rparr>,
       \<lparr>attribute_name = ''a'', case_sensitive = False, column_order = ASCENDING\<rparr>]
      (Inr (0::nat)) = Inr 0
   \<and> \<not> duplicate_key_pair (\<lambda>n. STRING)
      [\<lparr>attribute_name = ''a'', case_sensitive = True, column_order = ASCENDING\<rparr>,
       \<lparr>attribute_name = ''a'', case_sensitive = False, column_order = ASCENDING\<rparr>]"
proof -
  let ?dup = "[\<lparr>attribute_name = ''a'', case_sensitive = False, column_order = ASCENDING\<rparr>,
       \<lparr>attribute_name = ''b'', case_sensitive = True, column_order = ASCENDING\<rparr>,
       \<lparr>attribute_name = ''a'', case_sensitive = False, column_order = DESCENDING\<rparr>]"
  let ?mixed = "[\<lparr>attribute_name = ''a'', case_sensitive = True, column_order = ASCENDING\<rparr>,
       \<lparr>attribute_name = ''a'', case_sensitive = False, column_order = ASCENDING\<rparr>]"
  have c1: "check_duplicate_keys (\<lambda>n. STRING) ?dup {} {} = Some ERROR_INVALID_ARGUMENT_VALUE"
    by simp
  have c2: "check_duplicate_keys (\<lambda>n. STRING) ?mixed {} {} = None"
    by simp
  have d1: "duplicate_key_pair (\<lambda>n. STRING) ?dup"
    using BoundExtendedSort_duplicate_keys[of "\<lambda>n. STRING" ?dup "Inr (0::nat)"] c1 by simp
  have d2: "\<not> duplicate_key_pair (\<lambda>n. STRING) ?mixed"
    using BoundExtendedSort_duplicate_keys[of "\<lambda>n. STRING" ?mixed "Inr (0::nat)"] c2 by simp
  show ?thesis
    using d1 d2 c1 c2 by (simp add: BoundExtendedSort_def)
qed

section \<open>Correctness of the column-wise sort\<close>

subsection \<open>Segments of a list\<close>

lemma length_slice: "lo \<le> hi \<Longrightarrow> hi \<le> length xs \<Longrightarrow> length (slice lo hi xs) = hi - lo"
  by (simp add: slice_def)

lemma nth_slice: "lo + i < hi \<Longrightarrow> hi \<le> length xs \<Longrightarrow> slice lo hi xs ! i = xs ! (lo + i)"
  by (simp add: slice_def)

lemma slice_split: "lo \<le> mid \<Longrightarrow> mid \<le> hi \<Longrightarrow> slice lo hi xs = slice lo mid xs @ slice mid hi xs"
proof -
  assume a: "lo \<le> mid" "mid \<le> hi"
  then have "hi - lo = (mid - lo) + (hi - mid)" by simp
  then have "take (hi - lo) (drop lo xs)
      = take (mid - lo) (drop lo xs) @ take (hi - mid) (drop (mid - lo) (drop lo xs))"
    by (simp only: take_add)
  with a show ?thesis by (simp add: slice_def)
qed

lemma list_split3: "lo \<le> hi \<Longrightarrow> xs = take lo xs @ slice lo hi xs @ drop hi xs"
proof -
  assume a: "lo \<le> hi"
  have "drop (hi - lo) (drop lo xs) = drop hi xs" using a by simp
  then have "drop lo xs = slice lo hi xs @ drop hi xs"
    using append_take_drop_id[of "hi - lo" "drop lo xs"] by (simp only: slice_def)
  then have "take lo xs @ drop lo xs = take lo xs @ slice lo hi xs @ drop hi xs" by simp
  then show ?thesis by simp
qed

lemma set_slice: "lo \<le> hi \<Longrightarrow> hi \<le> length xs \<Longrightarrow> set (slice lo hi xs) = {xs ! i | i. lo \<le> i \<and> i < hi}"
proof -
  assume a: "lo \<le> hi" "hi \<le> length xs"
  have "set (slice lo hi xs) = {slice lo hi xs ! k | k. k < hi - lo}"
    using length_slice[OF a] by (auto simp: set_conv_nth)
  also have "\<dots> = {xs ! (lo + k) | k. k < hi - lo}"
    using a by (auto simp: nth_slice) (metis add.commute less_diff_conv nth_slice)+
  also have "\<dots> = {xs ! i | i. lo \<le> i \<and> i < hi}"
  proof (rule set_eqI, rule iffI)
    fix x assume "x \<in> {xs ! (lo + k) | k. k < hi - lo}"
    then obtain k where "x = xs ! (lo + k)" "k < hi - lo" by blast
    then have "x = xs ! (lo + k) \<and> lo \<le> lo + k \<and> lo + k < hi" by simp
    then show "x \<in> {xs ! i | i. lo \<le> i \<and> i < hi}" by blast
  next
    fix x assume "x \<in> {xs ! i | i. lo \<le> i \<and> i < hi}"
    then obtain i where "x = xs ! i" "lo \<le> i" "i < hi" by blast
    then have "x = xs ! (lo + (i - lo)) \<and> i - lo < hi - lo" by simp
    then show "x \<in> {xs ! (lo + k) | k. k < hi - lo}" by blast
  qed
  finally show ?thesis .
qed

lemma slice_eqI:
  assumes "lo \<le> hi" "hi \<le> length xs" "length ys = length xs"
    and "\<And>i. lo \<le> i \<Longrightarrow> i < hi \<Longrightarrow> ys ! i = xs ! i"
  shows "slice lo hi ys = slice lo hi xs"
proof (rule nth_equalityI)
  show "length (slice lo hi ys) = length (slice lo hi xs)"
    using assms by (simp add: length_slice)
next
  fix i assume "i < length (slice lo hi ys)"
  then have i: "lo + i < hi" using assms by (simp add: length_slice)
  then show "slice lo hi ys ! i = slice lo hi xs ! i"
    using assms by (simp add: nth_slice)
qed

subsection \<open>Rearranging one segment\<close>

lemma rearranged_refl: "lo \<le> hi \<Longrightarrow> hi \<le> length q \<Longrightarrow> rearranged lo hi q q"
  by (simp add: rearranged_def)

lemma rearranged_splice:
  assumes "lo \<le> hi" "hi \<le> length q" "mset seg = mset (slice lo hi q)"
  shows "rearranged lo hi q (take lo q @ seg @ drop hi q)"
    and "slice lo hi (take lo q @ seg @ drop hi q) = seg"
proof -
  let ?q' = "take lo q @ seg @ drop hi q"
  have ls: "length seg = hi - lo"
    using assms mset_eq_length[OF assms(3)] by (simp add: length_slice)
  then have len: "length ?q' = length q" using assms by simp
  show sl: "slice lo hi ?q' = seg" using assms ls by (simp add: slice_def)
  have out: "\<forall>i < length q. i < lo \<or> hi \<le> i \<longrightarrow> ?q' ! i = q ! i"
  proof (intro allI impI)
    fix i assume i: "i < length q" "i < lo \<or> hi \<le> i"
    show "?q' ! i = q ! i"
    proof (cases "i < lo")
      case True
      then show ?thesis using assms i by (simp add: nth_append)
    next
      case False
      with i have hi: "hi \<le> i" by simp
      have l2: "length (take lo q @ seg) = hi" using assms ls by simp
      have "?q' ! i = ((take lo q @ seg) @ drop hi q) ! i" by simp
      also have "\<dots> = drop hi q ! (i - hi)"
        using hi l2 by (simp only: nth_append) simp
      also have "\<dots> = q ! i" using assms hi i by simp
      finally show ?thesis .
    qed
  qed
  show "rearranged lo hi q ?q'"
    unfolding rearranged_def using assms len out sl by simp
qed

lemma rearranged_mset: "rearranged lo hi q q' \<Longrightarrow> mset q' = mset q"
proof -
  assume r: "rearranged lo hi q q'"
  then have a: "lo \<le> hi" "hi \<le> length q" "length q' = length q"
    and out: "\<And>i. i < length q \<Longrightarrow> i < lo \<or> hi \<le> i \<Longrightarrow> q' ! i = q ! i"
    and m: "mset (slice lo hi q') = mset (slice lo hi q)"
    by (auto simp: rearranged_def)
  have t: "take lo q' = take lo q"
    by (rule nth_equalityI) (use a out in auto)
  have d: "drop hi q' = drop hi q"
    by (rule nth_equalityI) (use a out in auto)
  have "mset q' = mset (take lo q' @ slice lo hi q' @ drop hi q')"
    using list_split3[OF a(1), of q'] by simp
  also have "\<dots> = mset (take lo q @ slice lo hi q @ drop hi q)"
    using t d m by simp
  also have "\<dots> = mset q" using list_split3[OF a(1), of q] by simp
  finally show ?thesis .
qed

lemma rearranged_length: "rearranged lo hi q q' \<Longrightarrow> length q' = length q"
  by (simp add: rearranged_def)

lemma rearranged_outside:
  "rearranged lo hi q q' \<Longrightarrow> i < lo \<or> hi \<le> i \<Longrightarrow> i < length q \<Longrightarrow> q' ! i = q ! i"
  by (auto simp: rearranged_def)

lemma rearranged_inside:
  assumes "rearranged lo hi q q'" "lo \<le> i" "i < hi"
  shows "\<exists>j. lo \<le> j \<and> j < hi \<and> q' ! i = q ! j"
proof -
  from assms(1) have a: "lo \<le> hi" "hi \<le> length q" "length q' = length q"
    and m: "mset (slice lo hi q') = mset (slice lo hi q)"
    by (auto simp: rearranged_def)
  have "q' ! i \<in> set (slice lo hi q')"
    using set_slice[of lo hi q'] a assms(2,3) by auto
  then have "q' ! i \<in> set (slice lo hi q)" using m by (metis set_mset_mset)
  then show ?thesis using set_slice[OF a(1,2)] by auto
qed

lemma rearranged_widen:
  assumes r: "rearranged lo' hi' q q'" and b: "lo \<le> lo'" "hi' \<le> hi" "hi \<le> length q"
  shows "rearranged lo hi q q'"
proof -
  from r have a: "lo' \<le> hi'" "hi' \<le> length q" "length q' = length q"
    and out: "\<And>i. i < length q \<Longrightarrow> i < lo' \<or> hi' \<le> i \<Longrightarrow> q' ! i = q ! i"
    and m: "mset (slice lo' hi' q') = mset (slice lo' hi' q)"
    by (auto simp: rearranged_def)
  have s1: "slice lo lo' q' = slice lo lo' q"
    by (rule slice_eqI) (use a b out in auto)
  have s2: "slice hi' hi q' = slice hi' hi q"
    by (rule slice_eqI) (use a b out in auto)
  have e: "\<And>xs::'a list. slice lo hi xs = slice lo lo' xs @ slice lo' hi' xs @ slice hi' hi xs"
  proof -
    fix xs :: "'a list"
    have "slice lo hi xs = slice lo lo' xs @ slice lo' hi xs"
      using a b by (intro slice_split) auto
    moreover have "slice lo' hi xs = slice lo' hi' xs @ slice hi' hi xs"
      using a b by (intro slice_split) auto
    ultimately show "slice lo hi xs = slice lo lo' xs @ slice lo' hi' xs @ slice hi' hi xs"
      by simp
  qed
  have "mset (slice lo hi q') = mset (slice lo hi q)"
    using s1 s2 m by (simp add: e)
  then show ?thesis
    unfolding rearranged_def using a b out by auto
qed

lemma rearranged_trans:
  assumes "rearranged lo hi q q'" "rearranged lo hi q' q''"
  shows "rearranged lo hi q q''"
  using assms unfolding rearranged_def by auto

subsection \<open>Strict weak orders\<close>

lemma swo_asym: "strict_weak_order lt \<Longrightarrow> lt a b \<Longrightarrow> \<not> lt b a"
  unfolding strict_weak_order_def by blast

lemma swo_irrefl: "strict_weak_order lt \<Longrightarrow> \<not> lt a a"
  unfolding strict_weak_order_def by blast

lemma swo_negtrans: "strict_weak_order lt \<Longrightarrow> \<not> lt a b \<Longrightarrow> \<not> lt b c \<Longrightarrow> \<not> lt a c"
  unfolding strict_weak_order_def by blast

lemma swo_trans: "strict_weak_order lt \<Longrightarrow> lt a b \<Longrightarrow> lt b c \<Longrightarrow> lt a c"
  unfolding strict_weak_order_def by blast

lemma swo_less_equiv_left:
  "strict_weak_order lt \<Longrightarrow> lt a b \<Longrightarrow> \<not> lt a a' \<Longrightarrow> lt a' b"
  unfolding strict_weak_order_def by blast

lemma swo_less_equiv_right:
  "strict_weak_order lt \<Longrightarrow> lt a b \<Longrightarrow> \<not> lt b' b \<Longrightarrow> lt a b'"
  unfolding strict_weak_order_def by blast

lemma swo_LessThanComparator: "strict_weak_order (LessThanComparator descending dat)"
  unfolding strict_weak_order_def LessThanComparator_def by auto

subsection \<open>The stable sort of a segment\<close>

lemma mset_insert_sorted: "mset (insert_sorted lt x ys) = add_mset x (mset ys)"
  by (induction ys) auto

lemma mset_stable_sort: "mset (stable_sort lt xs) = mset xs"
  unfolding stable_sort_def by (induction xs) (auto simp: mset_insert_sorted)

lemma set_insert_sorted: "set (insert_sorted lt x ys) = insert x (set ys)"
  by (induction ys) auto

lemma sorted_insert_sorted:
  assumes swo: "strict_weak_order lt"
    and s: "sorted_wrt (\<lambda>a b. lt a b \<or> (\<not> lt b a \<and> ord a b)) ys"
    and o: "\<forall>y \<in> set ys. ord x y"
  shows "sorted_wrt (\<lambda>a b. lt a b \<or> (\<not> lt b a \<and> ord a b)) (insert_sorted lt x ys)"
  using s o
proof (induction ys)
  case Nil
  then show ?case by simp
next
  case (Cons y ys)
  show ?case
  proof (cases "lt y x")
    case True
    then have "insert_sorted lt x (y # ys) = y # insert_sorted lt x ys" by simp
    moreover have "sorted_wrt (\<lambda>a b. lt a b \<or> (\<not> lt b a \<and> ord a b)) (insert_sorted lt x ys)"
      using Cons by simp
    moreover have "\<forall>z \<in> set (insert_sorted lt x ys). lt y z \<or> (\<not> lt z y \<and> ord y z)"
      using Cons.prems True by (auto simp: set_insert_sorted)
    ultimately show ?thesis by simp
  next
    case False
    have "\<forall>z \<in> set ys. \<not> lt z x"
    proof
      fix z assume z: "z \<in> set ys"
      with Cons.prems(1) have "lt y z \<or> (\<not> lt z y \<and> ord y z)" by simp
      then have "\<not> lt z y" using swo_asym[OF swo] by blast
      then show "\<not> lt z x" using False swo_negtrans[OF swo] by blast
    qed
    with False Cons.prems show ?thesis by auto
  qed
qed

lemma sorted_stable_sort:
  assumes swo: "strict_weak_order lt" and s: "sorted_wrt ord xs"
  shows "sorted_wrt (\<lambda>a b. lt a b \<or> (\<not> lt b a \<and> ord a b)) (stable_sort lt xs)"
  using s
proof (induction xs)
  case Nil
  then show ?case by (simp add: stable_sort_def)
next
  case (Cons x xs)
  have "stable_sort lt (x # xs) = insert_sorted lt x (stable_sort lt xs)"
    by (simp add: stable_sort_def)
  moreover have "\<forall>y \<in> set (stable_sort lt xs). ord x y"
    using Cons.prems mset_stable_sort[of lt xs] by (metis set_mset_mset sorted_wrt.simps(2))
  ultimately show ?case
    using sorted_insert_sorted[OF swo, of ord "stable_sort lt xs" x] Cons by simp
qed

lemma sorted_stable_sort_plain:
  assumes swo: "strict_weak_order lt"
  shows "sorted_wrt (\<lambda>a b. \<not> lt b a) (stable_sort lt xs)"
proof -
  have "sorted_wrt (\<lambda>a b. True) xs" by (induction xs) auto
  from sorted_stable_sort[OF swo this]
  have "sorted_wrt (\<lambda>a b. lt a b \<or> (\<not> lt b a \<and> True)) (stable_sort lt xs)" .
  then show ?thesis
    by (rule sorted_wrt_mono_rel[rotated]) (use swo_asym[OF swo] in blast)
qed

lemma stable_sort_cong:
  "(\<And>a b. a \<in> set xs \<Longrightarrow> b \<in> set xs \<Longrightarrow> lt a b = lt' a b)
     \<Longrightarrow> stable_sort lt xs = stable_sort lt' xs"
proof (induction xs)
  case Nil
  then show ?case by (simp add: stable_sort_def)
next
  case (Cons x xs)
  have ih: "stable_sort lt xs = stable_sort lt' xs" using Cons by simp
  have "\<And>ys. set ys \<subseteq> set xs \<Longrightarrow> insert_sorted lt x ys = insert_sorted lt' x ys"
  proof -
    fix ys show "set ys \<subseteq> set xs \<Longrightarrow> insert_sorted lt x ys = insert_sorted lt' x ys"
      using Cons.prems by (induction ys) auto
  qed
  then have "insert_sorted lt x (stable_sort lt' xs) = insert_sorted lt' x (stable_sort lt' xs)"
    using mset_stable_sort[of lt' xs] by (metis set_mset_mset subset_refl)
  then show ?case using ih by (simp add: stable_sort_def)
qed

subsection \<open>Finding the runs of equal values\<close>

lemma runs_found_step:
  assumes swo: "strict_weak_order lt"
    and srt: "\<forall>i j. lo \<le> i \<and> i < j \<and> j < hi \<longrightarrow> \<not> lt (p ! j) (p ! i)"
    and inv: "runs_found lt p lo m cf N" and m: "m < hi"
    and st: "find_equal_runs_step lt p m (cf, T @ N) = (cf', T')"
  shows "\<exists>N'. T' = T @ N' \<and> runs_found lt p lo (Suc m) cf' N'"
proof (cases "lt (p ! cf) (p ! m)")
  case False
  with st have e: "cf' = cf" "T' = T @ N" by (auto simp: find_equal_runs_step_def)
  have "runs_found lt p lo (Suc m) cf N"
    using inv False unfolding runs_found_def by (auto simp: less_Suc_eq)
  with e show ?thesis by blast
next
  case True
  from inv have b: "lo \<le> cf" "cf < m" and ord: "sorted_wrt (\<lambda>r s. range_to r \<le> range_from s) N"
    and un: "\<forall>u \<in> set N. lo \<le> range_from u \<and> range_from u \<le> range_to u \<and> range_to u \<le> cf \<and>
           (\<forall>i j. range_from u \<le> i \<and> i < j \<and> j < range_to u \<longrightarrow> \<not> lt (p ! i) (p ! j))"
    and eq: "\<forall>i. cf \<le> i \<and> i < m \<longrightarrow> \<not> lt (p ! cf) (p ! i)"
    and below: "\<forall>i. lo \<le> i \<and> i < cf \<longrightarrow> lt (p ! i) (p ! cf)"
    and cov: "\<forall>i j. lo \<le> i \<and> i < j \<and> j < cf \<and> \<not> lt (p ! i) (p ! j)
           \<longrightarrow> (\<exists>u \<in> set N. range_from u \<le> i \<and> j < range_to u)"
    unfolding runs_found_def by blast+
  define N' where "N' = (if m - cf > 1 then N @ [\<lparr>range_from = cf, range_to = m\<rparr>] else N)"
  from st True have e: "cf' = m" "T' = T @ N'"
    by (auto simp: find_equal_runs_step_def N'_def)
  have run_eq: "\<forall>i j. cf \<le> i \<and> i < j \<and> j < m \<longrightarrow> \<not> lt (p ! i) (p ! j)"
  proof (intro allI impI)
    fix i j assume a: "cf \<le> i \<and> i < j \<and> j < m"
    then have "\<not> lt (p ! cf) (p ! j)" using eq by simp
    moreover have "\<not> lt (p ! i) (p ! cf)"
    proof (cases "i = cf")
      case True then show ?thesis using swo_irrefl[OF swo] by simp
    next
      case False
      then have "lo \<le> cf \<and> cf < i \<and> i < hi" using a b m by simp
      then show ?thesis using srt by blast
    qed
    ultimately show "\<not> lt (p ! i) (p ! j)" using swo_negtrans[OF swo] by blast
  qed
  have below_m: "\<forall>i. lo \<le> i \<and> i < m \<longrightarrow> lt (p ! i) (p ! m)"
  proof (intro allI impI)
    fix i assume a: "lo \<le> i \<and> i < m"
    show "lt (p ! i) (p ! m)"
    proof (cases "i < cf")
      case True
      then have "lt (p ! i) (p ! cf)" using below a by simp
      then show ?thesis using \<open>lt (p ! cf) (p ! m)\<close> swo_trans[OF swo] by blast
    next
      case False
      then have "\<not> lt (p ! cf) (p ! i)" using eq a by simp
      then show ?thesis using \<open>lt (p ! cf) (p ! m)\<close> swo_less_equiv_left[OF swo] by blast
    qed
  qed
  have ord': "sorted_wrt (\<lambda>r s. range_to r \<le> range_from s) N'"
    using ord un by (auto simp: N'_def sorted_wrt_append)
  have un': "\<forall>u \<in> set N'. lo \<le> range_from u \<and> range_from u \<le> range_to u \<and> range_to u \<le> m \<and>
           (\<forall>i j. range_from u \<le> i \<and> i < j \<and> j < range_to u \<longrightarrow> \<not> lt (p ! i) (p ! j))"
  proof
    fix u assume "u \<in> set N'"
    then consider "u \<in> set N" | "u = \<lparr>range_from = cf, range_to = m\<rparr>"
      by (auto simp: N'_def split: if_splits)
    then show "lo \<le> range_from u \<and> range_from u \<le> range_to u \<and> range_to u \<le> m \<and>
           (\<forall>i j. range_from u \<le> i \<and> i < j \<and> j < range_to u \<longrightarrow> \<not> lt (p ! i) (p ! j))"
    proof cases
      case 1
      with un b show ?thesis by fastforce
    next
      case 2
      with b run_eq show ?thesis by simp
    qed
  qed
  have cov': "\<forall>i j. lo \<le> i \<and> i < j \<and> j < m \<and> \<not> lt (p ! i) (p ! j)
           \<longrightarrow> (\<exists>u \<in> set N'. range_from u \<le> i \<and> j < range_to u)"
  proof (intro allI impI)
    fix i j assume a: "lo \<le> i \<and> i < j \<and> j < m \<and> \<not> lt (p ! i) (p ! j)"
    consider "j < cf" | "cf \<le> i" | "i < cf" "cf \<le> j" by linarith
    then show "\<exists>u \<in> set N'. range_from u \<le> i \<and> j < range_to u"
    proof cases
      case 1
      with cov a obtain u where "u \<in> set N" "range_from u \<le> i \<and> j < range_to u" by blast
      then show ?thesis by (auto simp: N'_def)
    next
      case 2
      with a have "m - cf > 1" by linarith
      then have "\<lparr>range_from = cf, range_to = m\<rparr> \<in> set N'" by (simp add: N'_def)
      moreover have "range_from \<lparr>range_from = cf, range_to = m\<rparr> \<le> i \<and>
          j < range_to \<lparr>range_from = cf, range_to = m\<rparr>" using 2 a by simp
      ultimately show ?thesis by blast
    next
      case 3
      then have l: "lt (p ! i) (p ! cf)" using below a by simp
      have "\<not> lt (p ! j) (p ! cf)"
      proof (cases "j = cf")
        case True then show ?thesis using swo_irrefl[OF swo] by simp
      next
        case False
        then have "lo \<le> cf \<and> cf < j \<and> j < hi" using 3 a b m by simp
        then show ?thesis using srt by blast
      qed
      with l have "lt (p ! i) (p ! j)" using swo_less_equiv_right[OF swo] by blast
      with a show ?thesis by simp
    qed
  qed
  have "runs_found lt p lo (Suc m) m N'"
    unfolding runs_found_def
    using b ord' un' below_m cov' swo_irrefl[OF swo] by (auto simp: less_Suc_eq)
  with e show ?thesis by blast
qed

lemma runs_found_fold:
  assumes swo: "strict_weak_order lt"
    and srt: "\<forall>i j. lo \<le> i \<and> i < j \<and> j < hi \<longrightarrow> \<not> lt (p ! j) (p ! i)"
  shows "lo + 1 + k \<le> hi \<Longrightarrow>
     \<exists>cf N. fold (find_equal_runs_step lt p) [lo + 1 ..< lo + 1 + k] (lo, T) = (cf, T @ N)
        \<and> runs_found lt p lo (lo + 1 + k) cf N"
proof (induction k)
  case 0
  have "runs_found lt p lo (lo + 1) lo []"
    unfolding runs_found_def using swo_irrefl[OF swo] by (auto simp: less_Suc_eq)
  then show ?case by simp
next
  case (Suc k)
  then obtain cf N where f: "fold (find_equal_runs_step lt p) [lo + 1 ..< lo + 1 + k] (lo, T) = (cf, T @ N)"
    and inv: "runs_found lt p lo (lo + 1 + k) cf N" by auto
  obtain cf' T' where st: "find_equal_runs_step lt p (lo + 1 + k) (cf, T @ N) = (cf', T')"
    by (cases "find_equal_runs_step lt p (lo + 1 + k) (cf, T @ N)") auto
  from runs_found_step[OF swo srt inv _ st] Suc.prems
  obtain N' where n: "T' = T @ N'" "runs_found lt p lo (Suc (lo + 1 + k)) cf' N'" by auto
  have "[lo + 1 ..< lo + 1 + Suc k] = [lo + 1 ..< lo + 1 + k] @ [lo + 1 + k]" by simp
  then have "fold (find_equal_runs_step lt p) [lo + 1 ..< lo + 1 + Suc k] (lo, T) = (cf', T')"
    using f st by (simp only: fold_append) simp
  with n show ?case by auto
qed

lemma sorted_wrt_slice_iff:
  assumes "lo \<le> hi" "hi \<le> length xs"
  shows "sorted_wrt P (slice lo hi xs) \<longleftrightarrow> (\<forall>i j. lo \<le> i \<and> i < j \<and> j < hi \<longrightarrow> P (xs ! i) (xs ! j))"
proof
  assume s: "sorted_wrt P (slice lo hi xs)"
  show "\<forall>i j. lo \<le> i \<and> i < j \<and> j < hi \<longrightarrow> P (xs ! i) (xs ! j)"
  proof (intro allI impI)
    fix i j assume a: "lo \<le> i \<and> i < j \<and> j < hi"
    then have "i - lo < j - lo" "j - lo < length (slice lo hi xs)"
      using assms by (auto simp: length_slice)
    with s have "P (slice lo hi xs ! (i - lo)) (slice lo hi xs ! (j - lo))"
      by (simp add: sorted_wrt_iff_nth_less)
    moreover have "slice lo hi xs ! (i - lo) = xs ! i" "slice lo hi xs ! (j - lo) = xs ! j"
      using a assms nth_slice[of lo "i - lo" hi xs] nth_slice[of lo "j - lo" hi xs] by auto
    ultimately show "P (xs ! i) (xs ! j)" by simp
  qed
next
  assume r: "\<forall>i j. lo \<le> i \<and> i < j \<and> j < hi \<longrightarrow> P (xs ! i) (xs ! j)"
  show "sorted_wrt P (slice lo hi xs)"
    unfolding sorted_wrt_iff_nth_less
  proof (intro allI impI)
    fix i j assume a: "i < j" "j < length (slice lo hi xs)"
    then have b: "lo + i < hi" "lo + j < hi" using assms by (auto simp: length_slice)
    then have "P (xs ! (lo + i)) (xs ! (lo + j))" using r a by simp
    then show "P (slice lo hi xs ! i) (slice lo hi xs ! j)"
      using b assms by (simp add: nth_slice)
  qed
qed

lemma SortNonNullRange_snd:
  "snd (SortNonNullRange descending dat source T q is_last) =
     Permutation_Sort (range_from source) (range_to source) (LessThanComparator descending dat) q"
  by (simp add: SortNonNullRange_def Let_def split: prod.splits)

lemma SortNonNullRange_fst_last:
  "fst (SortNonNullRange descending dat source T q True) = T"
  by (simp add: SortNonNullRange_def Let_def)

lemma SortNonNullRange_fst:
  assumes "fold (find_equal_runs_step (LessThanComparator descending dat)
             (Permutation_Sort lo hi (LessThanComparator descending dat) q))
             [lo + 1 ..< hi] (lo, T) = (cf, T1)"
  shows "fst (SortNonNullRange descending dat \<lparr>range_from = lo, range_to = hi\<rparr> T q False) =
     (if hi - cf > 1 then T1 @ [\<lparr>range_from = cf, range_to = hi\<rparr>] else T1)"
proof -
  have "SortNonNullRange descending dat \<lparr>range_from = lo, range_to = hi\<rparr> T q False =
     (case fold (find_equal_runs_step (LessThanComparator descending dat)
             (Permutation_Sort lo hi (LessThanComparator descending dat) q))
             [lo + 1 ..< hi] (lo, T) of
        (current_from, target') \<Rightarrow>
          (if hi - current_from > 1
           then target' @ [\<lparr>range_from = current_from, range_to = hi\<rparr>]
           else target',
           Permutation_Sort lo hi (LessThanComparator descending dat) q))"
    unfolding SortNonNullRange_def Let_def by (simp split: prod.splits)
  then show ?thesis unfolding assms by simp
qed

subsection \<open>SortNonNullRange sorts its range and reports the runs\<close>

lemma SortNonNullRange_sorted:
  assumes b: "lo \<le> hi" "hi \<le> length q"
    and r: "SortNonNullRange descending dat \<lparr>range_from = lo, range_to = hi\<rparr> T q is_last = (T', q')"
  shows "range_sorted (LessThanComparator descending dat) ord is_last lo hi T q T' q'"
proof -
  let ?lt = "LessThanComparator descending dat"
  have swo: "strict_weak_order ?lt" by (rule swo_LessThanComparator)
  define seg where "seg = stable_sort ?lt (slice lo hi q)"
  have q'P: "q' = Permutation_Sort lo hi ?lt q"
    using arg_cong[OF r, of snd] by (simp add: SortNonNullRange_snd)
  then have q': "q' = take lo q @ seg @ drop hi q"
    by (simp add: Permutation_Sort_def seg_def)
  have ms: "mset seg = mset (slice lo hi q)" by (simp add: seg_def mset_stable_sort)
  have re: "rearranged lo hi q q'" and sl: "slice lo hi q' = seg"
    using rearranged_splice[OF b ms] q' by auto
  have b': "hi \<le> length q'" using re b by (simp add: rearranged_def)
  have "sorted_wrt (\<lambda>a b. \<not> ?lt b a) (slice lo hi q')"
    using sorted_stable_sort_plain[OF swo, of "slice lo hi q"] sl seg_def by simp
  then have srt: "\<forall>i j. lo \<le> i \<and> i < j \<and> j < hi \<longrightarrow> \<not> ?lt (q' ! j) (q' ! i)"
    by (simp only: sorted_wrt_slice_iff[OF b(1) b'])
  have stab: "(\<forall>i j. lo \<le> i \<and> i < j \<and> j < hi \<longrightarrow> ord (q ! i) (q ! j)) \<longrightarrow>
       (\<forall>i j. lo \<le> i \<and> i < j \<and> j < hi \<and> \<not> ?lt (q' ! i) (q' ! j) \<longrightarrow> ord (q' ! i) (q' ! j))"
  proof
    assume "\<forall>i j. lo \<le> i \<and> i < j \<and> j < hi \<longrightarrow> ord (q ! i) (q ! j)"
    then have "sorted_wrt ord (slice lo hi q)" by (simp only: sorted_wrt_slice_iff[OF b])
    from sorted_stable_sort[OF swo this]
    have "sorted_wrt (\<lambda>a b. ?lt a b \<or> (\<not> ?lt b a \<and> ord a b)) (slice lo hi q')"
      using sl seg_def by simp
    then have "\<forall>i j. lo \<le> i \<and> i < j \<and> j < hi \<longrightarrow>
        (?lt (q' ! i) (q' ! j) \<or> (\<not> ?lt (q' ! j) (q' ! i) \<and> ord (q' ! i) (q' ! j)))"
      by (simp only: sorted_wrt_slice_iff[OF b(1) b'])
    then show "\<forall>i j. lo \<le> i \<and> i < j \<and> j < hi \<and> \<not> ?lt (q' ! i) (q' ! j) \<longrightarrow> ord (q' ! i) (q' ! j)"
      by blast
  qed
  have "\<exists>N. T' = T @ N \<and>
           sorted_wrt (\<lambda>r s. range_to r \<le> range_from s) N \<and>
           (\<forall>u \<in> set N. lo \<le> range_from u \<and> range_from u \<le> range_to u \<and> range_to u \<le> hi \<and>
                (\<forall>i j. range_from u \<le> i \<and> i < j \<and> j < range_to u
                    \<longrightarrow> \<not> ?lt (q' ! i) (q' ! j))) \<and>
           (if is_last then N = []
            else (\<forall>i j. lo \<le> i \<and> i < j \<and> j < hi \<and> \<not> ?lt (q' ! i) (q' ! j)
                    \<longrightarrow> (\<exists>u \<in> set N. range_from u \<le> i \<and> j < range_to u)))"
  proof (cases is_last)
    case True
    then have "T' = T" using arg_cong[OF r, of fst] by (simp add: SortNonNullRange_fst_last)
    with True show ?thesis by simp
  next
    case False
    show ?thesis
    proof (cases "lo < hi")
      case nonempty: True
      then have "lo + 1 + (hi - lo - 1) \<le> hi" by simp
      from runs_found_fold[OF swo srt this, of T] nonempty
      obtain cf N where f: "fold (find_equal_runs_step ?lt q') [lo + 1 ..< hi] (lo, T) = (cf, T @ N)"
        and inv: "runs_found ?lt q' lo hi cf N" by auto
      define N' where "N' = (if hi - cf > 1 then N @ [\<lparr>range_from = cf, range_to = hi\<rparr>] else N)"
      have "fst (SortNonNullRange descending dat \<lparr>range_from = lo, range_to = hi\<rparr> T q False) = T'"
        using arg_cong[OF r, of fst] False by simp
      then have T': "T' = T @ N'"
        using SortNonNullRange_fst[OF f[unfolded q'P]] by (auto simp: N'_def)
      from inv have cb: "lo \<le> cf" "cf < hi"
        and ord: "sorted_wrt (\<lambda>r s. range_to r \<le> range_from s) N"
        and un: "\<forall>u \<in> set N. lo \<le> range_from u \<and> range_from u \<le> range_to u \<and> range_to u \<le> cf \<and>
           (\<forall>i j. range_from u \<le> i \<and> i < j \<and> j < range_to u \<longrightarrow> \<not> ?lt (q' ! i) (q' ! j))"
        and eq: "\<forall>i. cf \<le> i \<and> i < hi \<longrightarrow> \<not> ?lt (q' ! cf) (q' ! i)"
        and below: "\<forall>i. lo \<le> i \<and> i < cf \<longrightarrow> ?lt (q' ! i) (q' ! cf)"
        and cov: "\<forall>i j. lo \<le> i \<and> i < j \<and> j < cf \<and> \<not> ?lt (q' ! i) (q' ! j)
           \<longrightarrow> (\<exists>u \<in> set N. range_from u \<le> i \<and> j < range_to u)"
        unfolding runs_found_def by blast+
      have ge_cf: "\<And>i. cf \<le> i \<Longrightarrow> i < hi \<Longrightarrow> \<not> ?lt (q' ! i) (q' ! cf)"
      proof -
        fix i assume a: "cf \<le> i" "i < hi"
        show "\<not> ?lt (q' ! i) (q' ! cf)"
        proof (cases "i = cf")
          case True then show ?thesis using swo_irrefl[OF swo] by simp
        next
          case False
          then have "lo \<le> cf \<and> cf < i \<and> i < hi" using a cb by simp
          then show ?thesis using srt by blast
        qed
      qed
      have run_eq: "\<forall>i j. cf \<le> i \<and> i < j \<and> j < hi \<longrightarrow> \<not> ?lt (q' ! i) (q' ! j)"
      proof (intro allI impI)
        fix i j assume a: "cf \<le> i \<and> i < j \<and> j < hi"
        then have "\<not> ?lt (q' ! cf) (q' ! j)" using eq by simp
        moreover have "\<not> ?lt (q' ! i) (q' ! cf)" using ge_cf a by simp
        ultimately show "\<not> ?lt (q' ! i) (q' ! j)" using swo_negtrans[OF swo] by blast
      qed
      have ord': "sorted_wrt (\<lambda>r s. range_to r \<le> range_from s) N'"
        using ord un by (auto simp: N'_def sorted_wrt_append)
      have un': "\<forall>u \<in> set N'. lo \<le> range_from u \<and> range_from u \<le> range_to u \<and> range_to u \<le> hi \<and>
           (\<forall>i j. range_from u \<le> i \<and> i < j \<and> j < range_to u \<longrightarrow> \<not> ?lt (q' ! i) (q' ! j))"
      proof
        fix u assume "u \<in> set N'"
        then consider "u \<in> set N" | "u = \<lparr>range_from = cf, range_to = hi\<rparr>"
          by (auto simp: N'_def split: if_splits)
        then show "lo \<le> range_from u \<and> range_from u \<le> range_to u \<and> range_to u \<le> hi \<and>
           (\<forall>i j. range_from u \<le> i \<and> i < j \<and> j < range_to u \<longrightarrow> \<not> ?lt (q' ! i) (q' ! j))"
        proof cases
          case 1
          with un cb show ?thesis by fastforce
        next
          case 2
          with cb run_eq show ?thesis by simp
        qed
      qed
      have cov': "\<forall>i j. lo \<le> i \<and> i < j \<and> j < hi \<and> \<not> ?lt (q' ! i) (q' ! j)
           \<longrightarrow> (\<exists>u \<in> set N'. range_from u \<le> i \<and> j < range_to u)"
      proof (intro allI impI)
        fix i j assume a: "lo \<le> i \<and> i < j \<and> j < hi \<and> \<not> ?lt (q' ! i) (q' ! j)"
        consider "j < cf" | "cf \<le> i" | "i < cf" "cf \<le> j" by linarith
        then show "\<exists>u \<in> set N'. range_from u \<le> i \<and> j < range_to u"
        proof cases
          case 1
          with cov a obtain u where "u \<in> set N" "range_from u \<le> i \<and> j < range_to u" by blast
          then show ?thesis by (auto simp: N'_def)
        next
          case 2
          with a have "hi - cf > 1" by linarith
          then have "\<lparr>range_from = cf, range_to = hi\<rparr> \<in> set N'" by (simp add: N'_def)
          moreover have "range_from \<lparr>range_from = cf, range_to = hi\<rparr> \<le> i \<and>
              j < range_to \<lparr>range_from = cf, range_to = hi\<rparr>" using 2 a by simp
          ultimately show ?thesis by blast
        next
          case 3
          then have l: "?lt (q' ! i) (q' ! cf)" using below a by simp
          have "\<not> ?lt (q' ! j) (q' ! cf)" using ge_cf 3 a by simp
          with l have "?lt (q' ! i) (q' ! j)" using swo_less_equiv_right[OF swo] by blast
          with a show ?thesis by simp
        qed
      qed
      show ?thesis using T' ord' un' cov' False by auto
    next
      case empty: False
      with b have e: "lo = hi" by simp
      then have "T' = T" using arg_cong[OF r, of fst] False
        by (simp add: SortNonNullRange_def Let_def)
      with e False show ?thesis by simp
    qed
  qed
  with re srt stab show ?thesis unfolding range_sorted_def by blast
qed

subsection \<open>The order of one key column\<close>

lemma cell_less_asym: "cell_less x y \<Longrightarrow> \<not> cell_less y x"
  by (cases x; cases y) auto

lemma cell_less_negtrans: "\<not> cell_less x y \<Longrightarrow> \<not> cell_less y z \<Longrightarrow> \<not> cell_less x z"
  by (cases x; cases y; cases z) auto

lemma swo_column_less: "strict_weak_order (column_less descending c)"
proof -
  have a: "\<And>a b. column_less descending c a b \<Longrightarrow> \<not> column_less descending c b a"
    unfolding column_less_def using cell_less_asym by (cases descending) auto
  have n: "\<And>a b d. \<not> column_less descending c a b \<Longrightarrow> \<not> column_less descending c b d
      \<Longrightarrow> \<not> column_less descending c a d"
  proof -
    fix a b d
    assume h: "\<not> column_less descending c a b" "\<not> column_less descending c b d"
    show "\<not> column_less descending c a d"
    proof (cases descending)
      case True
      with h have "\<not> cell_less (cell c b) (cell c a)" "\<not> cell_less (cell c d) (cell c b)"
        by (simp_all add: column_less_def)
      then have "\<not> cell_less (cell c d) (cell c a)" by (rule cell_less_negtrans[rotated])
      with True show ?thesis by (simp add: column_less_def)
    next
      case False
      with h have "\<not> cell_less (cell c a) (cell c b)" "\<not> cell_less (cell c b) (cell c d)"
        by (simp_all add: column_less_def)
      then have "\<not> cell_less (cell c a) (cell c d)" by (rule cell_less_negtrans)
      with False show ?thesis by (simp add: column_less_def)
    qed
  qed
  show ?thesis unfolding strict_weak_order_def using a n by blast
qed

lemma column_less_not_null:
  "is_null c = None \<Longrightarrow> column_less descending c a b = LessThanComparator descending (data c) a b"
  by (simp add: column_less_def cell_def LessThanComparator_def)

lemma column_less_values:
  "is_null c = Some bits \<Longrightarrow> \<not> bits ! a \<Longrightarrow> \<not> bits ! b \<Longrightarrow>
     column_less descending c a b = LessThanComparator descending (data c) a b"
  by (simp add: column_less_def cell_def LessThanComparator_def)

lemma column_less_nulls:
  "is_null c = Some bits \<Longrightarrow> bits ! a \<Longrightarrow> bits ! b \<Longrightarrow> \<not> column_less descending c a b"
  by (simp add: column_less_def cell_def)

lemma column_less_null_first:
  "is_null c = Some bits \<Longrightarrow> bits ! a \<Longrightarrow> \<not> bits ! b \<Longrightarrow> column_less False c a b"
  by (simp add: column_less_def cell_def)

lemma column_less_null_last:
  "is_null c = Some bits \<Longrightarrow> \<not> bits ! a \<Longrightarrow> bits ! b \<Longrightarrow> column_less True c a b"
  by (simp add: column_less_def cell_def)

subsection \<open>Ranges that need no sorting\<close>

lemma range_sorted_small:
  assumes "lo \<le> hi" "hi \<le> length q" "hi - lo \<le> 1"
  shows "range_sorted kl ord is_last lo hi T q T q"
proof -
  have np: "\<And>i j. lo \<le> i \<and> i < j \<and> j < hi \<Longrightarrow> False" using assms by linarith
  have "rearranged lo hi q q" using assms by (simp add: rearranged_refl)
  moreover have "\<exists>N. T = T @ N \<and>
           sorted_wrt (\<lambda>r s. range_to r \<le> range_from s) N \<and>
           (\<forall>u \<in> set N. lo \<le> range_from u \<and> range_from u \<le> range_to u \<and> range_to u \<le> hi \<and>
                (\<forall>i j. range_from u \<le> i \<and> i < j \<and> j < range_to u
                    \<longrightarrow> \<not> kl (q ! i) (q ! j))) \<and>
           (if is_last then N = []
            else (\<forall>i j. lo \<le> i \<and> i < j \<and> j < hi \<and> \<not> kl (q ! i) (q ! j)
                    \<longrightarrow> (\<exists>u \<in> set N. range_from u \<le> i \<and> j < range_to u)))"
    using np by (intro exI[of _ "[]"]) auto
  ultimately show ?thesis unfolding range_sorted_def using np by blast
qed

lemma range_sorted_equal:
  assumes b: "lo \<le> hi" "hi \<le> length q"
    and eq: "\<forall>i j. lo \<le> i \<and> i < hi \<and> lo \<le> j \<and> j < hi \<longrightarrow> \<not> kl (q ! i) (q ! j)"
    and T': "T' = (if is_last then T else T @ [\<lparr>range_from = lo, range_to = hi\<rparr>])"
  shows "range_sorted kl ord is_last lo hi T q T' q"
proof -
  define N where "N = (if is_last then [] else [\<lparr>range_from = lo, range_to = hi\<rparr>])"
  have h1: "rearranged lo hi q q" using b by (simp add: rearranged_refl)
  have h2: "\<forall>i j. lo \<le> i \<and> i < j \<and> j < hi \<longrightarrow> \<not> kl (q ! j) (q ! i)"
    using eq by auto
  have h3: "T' = T @ N" using T' by (simp add: N_def)
  have h4: "sorted_wrt (\<lambda>r s. range_to r \<le> range_from s) N" by (simp add: N_def)
  have h5: "\<forall>u \<in> set N. lo \<le> range_from u \<and> range_from u \<le> range_to u \<and> range_to u \<le> hi \<and>
                (\<forall>i j. range_from u \<le> i \<and> i < j \<and> j < range_to u
                    \<longrightarrow> \<not> kl (q ! i) (q ! j))"
    using b eq by (auto simp: N_def)
  have h6: "if is_last then N = []
            else (\<forall>i j. lo \<le> i \<and> i < j \<and> j < hi \<and> \<not> kl (q ! i) (q ! j)
                    \<longrightarrow> (\<exists>u \<in> set N. range_from u \<le> i \<and> j < range_to u))"
    by (auto simp: N_def)
  show ?thesis unfolding range_sorted_def using h1 h2 h3 h4 h5 h6 by blast
qed

lemma range_sorted_cong:
  assumes rs: "range_sorted lt ord is_last lo hi T q T' q'"
    and ag: "\<forall>i j. lo \<le> i \<and> i < hi \<and> lo \<le> j \<and> j < hi \<longrightarrow> kl (q' ! i) (q' ! j) = lt (q' ! i) (q' ! j)"
  shows "range_sorted kl ord is_last lo hi T q T' q'"
proof -
  from rs obtain N where h1: "rearranged lo hi q q'"
    and h2: "\<forall>i j. lo \<le> i \<and> i < j \<and> j < hi \<longrightarrow> \<not> lt (q' ! j) (q' ! i)"
    and h3: "(\<forall>i j. lo \<le> i \<and> i < j \<and> j < hi \<longrightarrow> ord (q ! i) (q ! j)) \<longrightarrow>
       (\<forall>i j. lo \<le> i \<and> i < j \<and> j < hi \<and> \<not> lt (q' ! i) (q' ! j) \<longrightarrow> ord (q' ! i) (q' ! j))"
    and h4: "T' = T @ N" "sorted_wrt (\<lambda>r s. range_to r \<le> range_from s) N"
    and h5: "\<forall>u \<in> set N. lo \<le> range_from u \<and> range_from u \<le> range_to u \<and> range_to u \<le> hi \<and>
                (\<forall>i j. range_from u \<le> i \<and> i < j \<and> j < range_to u
                    \<longrightarrow> \<not> lt (q' ! i) (q' ! j))"
    and h6: "if is_last then N = []
            else (\<forall>i j. lo \<le> i \<and> i < j \<and> j < hi \<and> \<not> lt (q' ! i) (q' ! j)
                    \<longrightarrow> (\<exists>u \<in> set N. range_from u \<le> i \<and> j < range_to u))"
    unfolding range_sorted_def by blast
  have ag': "\<And>i j. lo \<le> i \<Longrightarrow> i < hi \<Longrightarrow> lo \<le> j \<Longrightarrow> j < hi \<Longrightarrow> kl (q' ! i) (q' ! j) = lt (q' ! i) (q' ! j)"
    using ag by blast
  have h2': "\<forall>i j. lo \<le> i \<and> i < j \<and> j < hi \<longrightarrow> \<not> kl (q' ! j) (q' ! i)"
    using h2 ag' by auto
  have h3': "(\<forall>i j. lo \<le> i \<and> i < j \<and> j < hi \<longrightarrow> ord (q ! i) (q ! j)) \<longrightarrow>
       (\<forall>i j. lo \<le> i \<and> i < j \<and> j < hi \<and> \<not> kl (q' ! i) (q' ! j) \<longrightarrow> ord (q' ! i) (q' ! j))"
    using h3 ag' by auto
  have h5': "\<forall>u \<in> set N. lo \<le> range_from u \<and> range_from u \<le> range_to u \<and> range_to u \<le> hi \<and>
                (\<forall>i j. range_from u \<le> i \<and> i < j \<and> j < range_to u
                    \<longrightarrow> \<not> kl (q' ! i) (q' ! j))"
  proof
    fix u assume u: "u \<in> set N"
    with h5 have ub: "lo \<le> range_from u" "range_from u \<le> range_to u" "range_to u \<le> hi"
      and ue: "\<And>i j. range_from u \<le> i \<and> i < j \<and> j < range_to u \<Longrightarrow> \<not> lt (q' ! i) (q' ! j)"
      by auto
    have "\<forall>i j. range_from u \<le> i \<and> i < j \<and> j < range_to u \<longrightarrow> \<not> kl (q' ! i) (q' ! j)"
    proof (intro allI impI)
      fix i j assume a: "range_from u \<le> i \<and> i < j \<and> j < range_to u"
      then have "kl (q' ! i) (q' ! j) = lt (q' ! i) (q' ! j)" using ub by (intro ag') auto
      with ue[OF a] show "\<not> kl (q' ! i) (q' ! j)" by simp
    qed
    with ub show "lo \<le> range_from u \<and> range_from u \<le> range_to u \<and> range_to u \<le> hi \<and>
                (\<forall>i j. range_from u \<le> i \<and> i < j \<and> j < range_to u
                    \<longrightarrow> \<not> kl (q' ! i) (q' ! j))" by blast
  qed
  have h6': "if is_last then N = []
            else (\<forall>i j. lo \<le> i \<and> i < j \<and> j < hi \<and> \<not> kl (q' ! i) (q' ! j)
                    \<longrightarrow> (\<exists>u \<in> set N. range_from u \<le> i \<and> j < range_to u))"
  proof (cases is_last)
    case True with h6 show ?thesis by simp
  next
    case False
    with h6 have c: "\<And>i j. lo \<le> i \<and> i < j \<and> j < hi \<and> \<not> lt (q' ! i) (q' ! j)
                    \<Longrightarrow> (\<exists>u \<in> set N. range_from u \<le> i \<and> j < range_to u)" by simp
    have "\<forall>i j. lo \<le> i \<and> i < j \<and> j < hi \<and> \<not> kl (q' ! i) (q' ! j)
                    \<longrightarrow> (\<exists>u \<in> set N. range_from u \<le> i \<and> j < range_to u)"
    proof (intro allI impI)
      fix i j assume a: "lo \<le> i \<and> i < j \<and> j < hi \<and> \<not> kl (q' ! i) (q' ! j)"
      then have "kl (q' ! i) (q' ! j) = lt (q' ! i) (q' ! j)" by (intro ag') auto
      with a have "lo \<le> i \<and> i < j \<and> j < hi \<and> \<not> lt (q' ! i) (q' ! j)" by simp
      from c[OF this] show "\<exists>u \<in> set N. range_from u \<le> i \<and> j < range_to u" .
    qed
    with False show ?thesis by simp
  qed
  show ?thesis unfolding range_sorted_def using h1 h2' h3' h4 h5' h6' by blast
qed

subsection \<open>The NULL partition\<close>

lemma Permutation_Partition_spec:
  assumes b: "lo \<le> hi" "hi \<le> length q"
    and r: "Permutation_Partition lo hi P q = (c, q1)"
  shows "rearranged lo hi q q1"
    and "lo + c \<le> hi"
    and "\<forall>i. lo \<le> i \<and> i < lo + c \<longrightarrow> P (q1 ! i)"
    and "\<forall>i. lo + c \<le> i \<and> i < hi \<longrightarrow> \<not> P (q1 ! i)"
    and "(\<forall>i j. lo \<le> i \<and> i < j \<and> j < hi \<longrightarrow> ord (q ! i) (q ! j)) \<longrightarrow>
         (\<forall>i j. lo \<le> i \<and> i < j \<and> j < lo + c \<longrightarrow> ord (q1 ! i) (q1 ! j)) \<and>
         (\<forall>i j. lo + c \<le> i \<and> i < j \<and> j < hi \<longrightarrow> ord (q1 ! i) (q1 ! j))"
proof -
  define yes where "yes = filter P (slice lo hi q)"
  define no where "no = filter (\<lambda>i. \<not> P i) (slice lo hi q)"
  have c: "c = length yes" and q1: "q1 = take lo q @ (yes @ no) @ drop hi q"
    using r by (auto simp: Permutation_Partition_def yes_def no_def)
  have ms: "mset (yes @ no) = mset (slice lo hi q)"
    by (simp add: yes_def no_def)
  have re: "rearranged lo hi q q1" and sl: "slice lo hi q1 = yes @ no"
    using rearranged_splice[OF b ms] q1 by auto
  show "rearranged lo hi q q1" by (rule re)
  have len: "length yes + length no = hi - lo"
    using mset_eq_length[OF ms] b by (simp add: length_slice)
  then show cb: "lo + c \<le> hi" using c b by simp
  have b1: "hi \<le> length q1" using re b by (simp add: rearranged_def)
  have sy: "slice lo (lo + c) q1 = yes"
  proof -
    have "slice lo hi q1 = slice lo (lo + c) q1 @ slice (lo + c) hi q1"
      using cb by (intro slice_split) auto
    moreover have "length (slice lo (lo + c) q1) = length yes"
      using cb b1 c by (simp add: length_slice)
    ultimately show ?thesis using sl by (metis append_eq_append_conv)
  qed
  have sn: "slice (lo + c) hi q1 = no"
  proof -
    have "slice lo hi q1 = slice lo (lo + c) q1 @ slice (lo + c) hi q1"
      using cb by (intro slice_split) auto
    then show ?thesis using sl sy by simp
  qed
  have cb1: "lo + c \<le> length q1" using cb b1 by simp
  have lo_le: "lo \<le> lo + c" by simp
  have "\<forall>x \<in> set (slice lo (lo + c) q1). P x" using sy by (simp add: yes_def)
  then show "\<forall>i. lo \<le> i \<and> i < lo + c \<longrightarrow> P (q1 ! i)"
    using set_slice[OF lo_le cb1] by blast
  have "\<forall>x \<in> set (slice (lo + c) hi q1). \<not> P x" using sn by (simp add: no_def)
  then show "\<forall>i. lo + c \<le> i \<and> i < hi \<longrightarrow> \<not> P (q1 ! i)"
    using set_slice[OF cb b1] by blast
  show "(\<forall>i j. lo \<le> i \<and> i < j \<and> j < hi \<longrightarrow> ord (q ! i) (q ! j)) \<longrightarrow>
         (\<forall>i j. lo \<le> i \<and> i < j \<and> j < lo + c \<longrightarrow> ord (q1 ! i) (q1 ! j)) \<and>
         (\<forall>i j. lo + c \<le> i \<and> i < j \<and> j < hi \<longrightarrow> ord (q1 ! i) (q1 ! j))"
  proof
    assume "\<forall>i j. lo \<le> i \<and> i < j \<and> j < hi \<longrightarrow> ord (q ! i) (q ! j)"
    then have s: "sorted_wrt ord (slice lo hi q)" by (simp only: sorted_wrt_slice_iff[OF b])
    have "sorted_wrt ord (slice lo (lo + c) q1)"
      using sorted_wrt_filter[OF s, of P] sy by (simp add: yes_def)
    then have y: "\<forall>i j. lo \<le> i \<and> i < j \<and> j < lo + c \<longrightarrow> ord (q1 ! i) (q1 ! j)"
      by (simp only: sorted_wrt_slice_iff[OF lo_le cb1])
    have "sorted_wrt ord (slice (lo + c) hi q1)"
      using sorted_wrt_filter[OF s, of "\<lambda>i. \<not> P i"] sn by (simp add: no_def)
    then have n: "\<forall>i j. lo + c \<le> i \<and> i < j \<and> j < hi \<longrightarrow> ord (q1 ! i) (q1 ! j)"
      by (simp only: sorted_wrt_slice_iff[OF cb b1])
    from y n show "(\<forall>i j. lo \<le> i \<and> i < j \<and> j < lo + c \<longrightarrow> ord (q1 ! i) (q1 ! j)) \<and>
         (\<forall>i j. lo + c \<le> i \<and> i < j \<and> j < hi \<longrightarrow> ord (q1 ! i) (q1 ! j))" by blast
  qed
qed

subsection \<open>Joining two sorted halves of a range\<close>

lemma range_sorted_join:
  assumes swo: "strict_weak_order kl"
    and b: "lo \<le> mid" "mid \<le> hi" "hi \<le> length q"
    and P: "rearranged lo hi q q1"
    and Pord: "(\<forall>i j. lo \<le> i \<and> i < j \<and> j < hi \<longrightarrow> ord (q ! i) (q ! j)) \<longrightarrow>
         (\<forall>i j. lo \<le> i \<and> i < j \<and> j < mid \<longrightarrow> ord (q1 ! i) (q1 ! j)) \<and>
         (\<forall>i j. mid \<le> i \<and> i < j \<and> j < hi \<longrightarrow> ord (q1 ! i) (q1 ! j))"
    and cross: "\<forall>i j. lo \<le> i \<and> i < mid \<and> mid \<le> j \<and> j < hi \<longrightarrow> kl (q1 ! i) (q1 ! j)"
    and A: "range_sorted kl ord is_last lo mid T q1 T1 q2"
    and B: "range_sorted kl ord is_last mid hi T1 q2 T2 q3"
  shows "range_sorted kl ord is_last lo hi T q T2 q3"
proof -
  from A obtain N1 where A1: "rearranged lo mid q1 q2"
    and A2: "\<forall>i j. lo \<le> i \<and> i < j \<and> j < mid \<longrightarrow> \<not> kl (q2 ! j) (q2 ! i)"
    and A3: "(\<forall>i j. lo \<le> i \<and> i < j \<and> j < mid \<longrightarrow> ord (q1 ! i) (q1 ! j)) \<longrightarrow>
       (\<forall>i j. lo \<le> i \<and> i < j \<and> j < mid \<and> \<not> kl (q2 ! i) (q2 ! j) \<longrightarrow> ord (q2 ! i) (q2 ! j))"
    and A4: "T1 = T @ N1" "sorted_wrt (\<lambda>r s. range_to r \<le> range_from s) N1"
    and A5: "\<forall>u \<in> set N1. lo \<le> range_from u \<and> range_from u \<le> range_to u \<and> range_to u \<le> mid \<and>
                (\<forall>i j. range_from u \<le> i \<and> i < j \<and> j < range_to u
                    \<longrightarrow> \<not> kl (q2 ! i) (q2 ! j))"
    and A6: "if is_last then N1 = []
            else (\<forall>i j. lo \<le> i \<and> i < j \<and> j < mid \<and> \<not> kl (q2 ! i) (q2 ! j)
                    \<longrightarrow> (\<exists>u \<in> set N1. range_from u \<le> i \<and> j < range_to u))"
    unfolding range_sorted_def by blast
  from B obtain N2 where B1: "rearranged mid hi q2 q3"
    and B2: "\<forall>i j. mid \<le> i \<and> i < j \<and> j < hi \<longrightarrow> \<not> kl (q3 ! j) (q3 ! i)"
    and B3: "(\<forall>i j. mid \<le> i \<and> i < j \<and> j < hi \<longrightarrow> ord (q2 ! i) (q2 ! j)) \<longrightarrow>
       (\<forall>i j. mid \<le> i \<and> i < j \<and> j < hi \<and> \<not> kl (q3 ! i) (q3 ! j) \<longrightarrow> ord (q3 ! i) (q3 ! j))"
    and B4: "T2 = T1 @ N2" "sorted_wrt (\<lambda>r s. range_to r \<le> range_from s) N2"
    and B5: "\<forall>u \<in> set N2. mid \<le> range_from u \<and> range_from u \<le> range_to u \<and> range_to u \<le> hi \<and>
                (\<forall>i j. range_from u \<le> i \<and> i < j \<and> j < range_to u
                    \<longrightarrow> \<not> kl (q3 ! i) (q3 ! j))"
    and B6: "if is_last then N2 = []
            else (\<forall>i j. mid \<le> i \<and> i < j \<and> j < hi \<and> \<not> kl (q3 ! i) (q3 ! j)
                    \<longrightarrow> (\<exists>u \<in> set N2. range_from u \<le> i \<and> j < range_to u))"
    unfolding range_sorted_def by blast
  have l1: "length q1 = length q" using P by (rule rearranged_length)
  have l2: "length q2 = length q1" using A1 by (rule rearranged_length)
  have l3: "length q3 = length q2" using B1 by (rule rearranged_length)
  have low: "\<And>i. i < mid \<Longrightarrow> q3 ! i = q2 ! i"
    using rearranged_outside[OF B1] b l1 l2 by simp
  have high: "\<And>j. mid \<le> j \<Longrightarrow> j < hi \<Longrightarrow> q2 ! j = q1 ! j"
    using rearranged_outside[OF A1] b l1 by simp
  have cross3: "\<And>i j. lo \<le> i \<Longrightarrow> i < mid \<Longrightarrow> mid \<le> j \<Longrightarrow> j < hi \<Longrightarrow> kl (q3 ! i) (q3 ! j)"
  proof -
    fix i j assume a: "lo \<le> i" "i < mid" "mid \<le> j" "j < hi"
    from rearranged_inside[OF A1 a(1,2)] obtain i' where i': "lo \<le> i'" "i' < mid" "q2 ! i = q1 ! i'"
      by blast
    from rearranged_inside[OF B1 a(3,4)] obtain j' where j': "mid \<le> j'" "j' < hi" "q3 ! j = q2 ! j'"
      by blast
    have "kl (q1 ! i') (q1 ! j')" using cross i' j' by blast
    then show "kl (q3 ! i) (q3 ! j)" using low[OF a(2)] i'(3) j'(3) high[OF j'(1,2)] by simp
  qed
  have R: "rearranged lo hi q q3"
  proof -
    have "rearranged lo hi q1 q2" using rearranged_widen[OF A1, of lo hi] b l1 by simp
    moreover have "rearranged lo hi q2 q3" using rearranged_widen[OF B1, of lo hi] b l1 l2 by simp
    ultimately show ?thesis using P rearranged_trans by blast
  qed
  have S: "\<forall>i j. lo \<le> i \<and> i < j \<and> j < hi \<longrightarrow> \<not> kl (q3 ! j) (q3 ! i)"
  proof (intro allI impI)
    fix i j assume a: "lo \<le> i \<and> i < j \<and> j < hi"
    consider "j < mid" | "mid \<le> i" | "i < mid" "mid \<le> j" by linarith
    then show "\<not> kl (q3 ! j) (q3 ! i)"
    proof cases
      case 1
      then have "\<not> kl (q2 ! j) (q2 ! i)" using A2 a by simp
      then show ?thesis using low[of i] low[of j] 1 a by simp
    next
      case 2
      then show ?thesis using B2 a by simp
    next
      case 3
      then have "kl (q3 ! i) (q3 ! j)" using cross3[of i j] a by blast
      then show ?thesis using swo_asym[OF swo] by blast
    qed
  qed
  have St: "(\<forall>i j. lo \<le> i \<and> i < j \<and> j < hi \<longrightarrow> ord (q ! i) (q ! j)) \<longrightarrow>
       (\<forall>i j. lo \<le> i \<and> i < j \<and> j < hi \<and> \<not> kl (q3 ! i) (q3 ! j) \<longrightarrow> ord (q3 ! i) (q3 ! j))"
  proof (intro impI allI)
    fix i j
    assume o: "\<forall>i j. lo \<le> i \<and> i < j \<and> j < hi \<longrightarrow> ord (q ! i) (q ! j)"
      and a: "lo \<le> i \<and> i < j \<and> j < hi \<and> \<not> kl (q3 ! i) (q3 ! j)"
    from o Pord have o1: "\<forall>i j. lo \<le> i \<and> i < j \<and> j < mid \<longrightarrow> ord (q1 ! i) (q1 ! j)"
      and o2: "\<forall>i j. mid \<le> i \<and> i < j \<and> j < hi \<longrightarrow> ord (q1 ! i) (q1 ! j)" by blast+
    from o1 A3 have s1: "\<And>i j. lo \<le> i \<and> i < j \<and> j < mid \<and> \<not> kl (q2 ! i) (q2 ! j)
        \<Longrightarrow> ord (q2 ! i) (q2 ! j)" by blast
    have "\<forall>i j. mid \<le> i \<and> i < j \<and> j < hi \<longrightarrow> ord (q2 ! i) (q2 ! j)"
      using o2 high by auto
    with B3 have s2: "\<And>i j. mid \<le> i \<and> i < j \<and> j < hi \<and> \<not> kl (q3 ! i) (q3 ! j)
        \<Longrightarrow> ord (q3 ! i) (q3 ! j)" by blast
    consider "j < mid" | "mid \<le> i" | "i < mid" "mid \<le> j" by linarith
    then show "ord (q3 ! i) (q3 ! j)"
    proof cases
      case 1
      then have e: "q3 ! i = q2 ! i" "q3 ! j = q2 ! j" using low[of i] low[of j] a by simp_all
      have "lo \<le> i \<and> i < j \<and> j < mid \<and> \<not> kl (q2 ! i) (q2 ! j)" using a 1 e by simp
      from s1[OF this] show ?thesis using e by simp
    next
      case 2
      have "mid \<le> i \<and> i < j \<and> j < hi \<and> \<not> kl (q3 ! i) (q3 ! j)" using a 2 by simp
      from s2[OF this] show ?thesis .
    next
      case 3
      then have "kl (q3 ! i) (q3 ! j)" using cross3[of i j] a by blast
      with a show ?thesis by simp
    qed
  qed
  define N where "N = N1 @ N2"
  have N1: "T2 = T @ N" using A4 B4 by (simp add: N_def)
  have N2: "sorted_wrt (\<lambda>r s. range_to r \<le> range_from s) N"
    unfolding N_def sorted_wrt_append using A4 B4 A5 B5 by fastforce
  have N3: "\<forall>u \<in> set N. lo \<le> range_from u \<and> range_from u \<le> range_to u \<and> range_to u \<le> hi \<and>
                (\<forall>i j. range_from u \<le> i \<and> i < j \<and> j < range_to u
                    \<longrightarrow> \<not> kl (q3 ! i) (q3 ! j))"
  proof
    fix u assume "u \<in> set N"
    then consider "u \<in> set N1" | "u \<in> set N2" by (auto simp: N_def)
    then show "lo \<le> range_from u \<and> range_from u \<le> range_to u \<and> range_to u \<le> hi \<and>
                (\<forall>i j. range_from u \<le> i \<and> i < j \<and> j < range_to u
                    \<longrightarrow> \<not> kl (q3 ! i) (q3 ! j))"
    proof cases
      case 1
      with A5 have ub: "lo \<le> range_from u" "range_from u \<le> range_to u" "range_to u \<le> mid"
        and ue: "\<And>i j. range_from u \<le> i \<and> i < j \<and> j < range_to u \<Longrightarrow> \<not> kl (q2 ! i) (q2 ! j)"
        by auto
      have "\<forall>i j. range_from u \<le> i \<and> i < j \<and> j < range_to u \<longrightarrow> \<not> kl (q3 ! i) (q3 ! j)"
      proof (intro allI impI)
        fix i j assume a: "range_from u \<le> i \<and> i < j \<and> j < range_to u"
        then have "q3 ! i = q2 ! i" "q3 ! j = q2 ! j" using low[of i] low[of j] ub by simp_all
        with ue[OF a] show "\<not> kl (q3 ! i) (q3 ! j)" by simp
      qed
      with ub b show ?thesis by simp
    next
      case 2
      with B5 b show ?thesis by fastforce
    qed
  qed
  have N4: "if is_last then N = []
            else (\<forall>i j. lo \<le> i \<and> i < j \<and> j < hi \<and> \<not> kl (q3 ! i) (q3 ! j)
                    \<longrightarrow> (\<exists>u \<in> set N. range_from u \<le> i \<and> j < range_to u))"
  proof (cases is_last)
    case True
    with A6 B6 show ?thesis by (simp add: N_def)
  next
    case False
    with A6 have c1: "\<And>i j. lo \<le> i \<and> i < j \<and> j < mid \<and> \<not> kl (q2 ! i) (q2 ! j)
                    \<Longrightarrow> (\<exists>u \<in> set N1. range_from u \<le> i \<and> j < range_to u)" by simp
    from False B6 have c2: "\<And>i j. mid \<le> i \<and> i < j \<and> j < hi \<and> \<not> kl (q3 ! i) (q3 ! j)
                    \<Longrightarrow> (\<exists>u \<in> set N2. range_from u \<le> i \<and> j < range_to u)" by simp
    have "\<forall>i j. lo \<le> i \<and> i < j \<and> j < hi \<and> \<not> kl (q3 ! i) (q3 ! j)
                    \<longrightarrow> (\<exists>u \<in> set N. range_from u \<le> i \<and> j < range_to u)"
    proof (intro allI impI)
      fix i j assume a: "lo \<le> i \<and> i < j \<and> j < hi \<and> \<not> kl (q3 ! i) (q3 ! j)"
      consider "j < mid" | "mid \<le> i" | "i < mid" "mid \<le> j" by linarith
      then show "\<exists>u \<in> set N. range_from u \<le> i \<and> j < range_to u"
      proof cases
        case 1
        then have e: "q3 ! i = q2 ! i" "q3 ! j = q2 ! j" using low[of i] low[of j] a by simp_all
        have "lo \<le> i \<and> i < j \<and> j < mid \<and> \<not> kl (q2 ! i) (q2 ! j)" using a 1 e by simp
        from c1[OF this] show ?thesis by (auto simp: N_def)
      next
        case 2
        have "mid \<le> i \<and> i < j \<and> j < hi \<and> \<not> kl (q3 ! i) (q3 ! j)" using a 2 by simp
        from c2[OF this] show ?thesis by (auto simp: N_def)
      next
        case 3
        then have "kl (q3 ! i) (q3 ! j)" using cross3[of i j] a by blast
        with a show ?thesis by simp
      qed
    qed
    with False show ?thesis by simp
  qed
  show ?thesis unfolding range_sorted_def using R S St N1 N2 N3 N4 by blast
qed

subsection \<open>SortRange sorts its range by the key column\<close>

lemma SortRange_not_null:
  "SortRange descending True dat bits source T q is_last =
     SortNonNullRange descending dat source T q is_last"
  by (simp add: SortRange_def)

lemma SortRange_ascending:
  assumes "Permutation_Partition lo hi (NullPartitionPredicate False bits) q = (c, q1)"
  shows "SortRange False False dat bits \<lparr>range_from = lo, range_to = hi\<rparr> T q is_last =
     (if hi - c > 1
      then SortNonNullRange False dat \<lparr>range_from = lo + c, range_to = hi\<rparr>
             (if c > 1 \<and> \<not> is_last then T @ [\<lparr>range_from = lo, range_to = lo + c\<rparr>] else T)
             q1 is_last
      else (if c > 1 \<and> \<not> is_last then T @ [\<lparr>range_from = lo, range_to = lo + c\<rparr>] else T, q1))"
  using assms by (simp add: SortRange_def Let_def)

lemma SortRange_descending:
  assumes "Permutation_Partition lo hi (NullPartitionPredicate True bits) q = (c, q1)"
    and "(if c > 1 then SortNonNullRange True dat \<lparr>range_from = lo, range_to = lo + c\<rparr> T q1 is_last
          else (T, q1)) = (T1, q2)"
  shows "SortRange True False dat bits \<lparr>range_from = lo, range_to = hi\<rparr> T q is_last =
     (if hi - c > 1 \<and> \<not> is_last then T1 @ [\<lparr>range_from = lo + c, range_to = hi\<rparr>] else T1, q2)"
  using assms by (cases "c > 1"; cases is_last; simp add: SortRange_def Let_def)

lemma SortRange_sorted:
  assumes b: "lo \<le> hi" "hi \<le> length q"
    and col: "case is_null c of None \<Rightarrow> is_always_not_null
              | Some bs \<Rightarrow> \<not> is_always_not_null \<and> bits = bs"
    and r: "SortRange descending is_always_not_null (data c) bits
              \<lparr>range_from = lo, range_to = hi\<rparr> T q is_last = (T', q')"
  shows "range_sorted (column_less descending c) ord is_last lo hi T q T' q'"
proof (cases "is_null c")
  case None
  with col r have "SortNonNullRange descending (data c) \<lparr>range_from = lo, range_to = hi\<rparr> T q is_last
      = (T', q')" by (simp add: SortRange_not_null)
  from SortNonNullRange_sorted[OF b this]
  have "range_sorted (LessThanComparator descending (data c)) ord is_last lo hi T q T' q'" .
  then show ?thesis
    by (rule range_sorted_cong) (simp add: column_less_not_null[OF None])
next
  case (Some bs)
  with col have nn: "\<not> is_always_not_null" and bits: "is_null c = Some bits" by simp_all
  let ?kl = "column_less descending c"
  have swo: "strict_weak_order ?kl" by (rule swo_column_less)
  obtain cnt q1 where part: "Permutation_Partition lo hi (NullPartitionPredicate descending bits) q = (cnt, q1)"
    by (cases "Permutation_Partition lo hi (NullPartitionPredicate descending bits) q") auto
  define mid where "mid = lo + cnt"
  note ps = Permutation_Partition_spec[OF b part, folded mid_def]
  have P1: "rearranged lo hi q q1" by (rule ps(1))
  have mb: "lo \<le> mid" "mid \<le> hi" using ps(2) by (simp_all add: mid_def)
  have l1: "length q1 = length q" using P1 by (rule rearranged_length)
  have yes: "\<And>i. lo \<le> i \<Longrightarrow> i < mid \<Longrightarrow> bits ! (q1 ! i) \<noteq> descending"
    using ps(3) by (simp add: NullPartitionPredicate_def)
  have no: "\<And>i. mid \<le> i \<Longrightarrow> i < hi \<Longrightarrow> bits ! (q1 ! i) = descending"
    using ps(4) by (simp add: NullPartitionPredicate_def)
  have cross: "\<forall>i j. lo \<le> i \<and> i < mid \<and> mid \<le> j \<and> j < hi \<longrightarrow> ?kl (q1 ! i) (q1 ! j)"
  proof (intro allI impI)
    fix i j assume a: "lo \<le> i \<and> i < mid \<and> mid \<le> j \<and> j < hi"
    then have y: "bits ! (q1 ! i) \<noteq> descending" and n: "bits ! (q1 ! j) = descending"
      using yes no by simp_all
    show "?kl (q1 ! i) (q1 ! j)"
    proof (cases descending)
      case True
      with y n show ?thesis using column_less_null_last[OF bits] by simp
    next
      case False
      with y n show ?thesis using column_less_null_first[OF bits] by simp
    qed
  qed
  show ?thesis
  proof (cases descending)
    case False
    define T1 where "T1 = (if cnt > 1 \<and> \<not> is_last then T @ [\<lparr>range_from = lo, range_to = mid\<rparr>] else T)"
    have A: "range_sorted ?kl ord is_last lo mid T q1 T1 q1"
    proof (cases "cnt > 1")
      case True
      have "\<forall>i j. lo \<le> i \<and> i < mid \<and> lo \<le> j \<and> j < mid \<longrightarrow> \<not> ?kl (q1 ! i) (q1 ! j)"
        using yes False column_less_nulls[OF bits] by simp
      moreover have "T1 = (if is_last then T else T @ [\<lparr>range_from = lo, range_to = mid\<rparr>])"
        using True by (simp add: T1_def)
      ultimately show ?thesis using mb b l1 by (intro range_sorted_equal) auto
    next
      case small: False
      then have "T1 = T" by (simp add: T1_def)
      moreover have "mid - lo \<le> 1" using small by (simp add: mid_def)
      ultimately show ?thesis using mb b l1 range_sorted_small[of lo mid q1 ?kl ord is_last T] by simp
    qed
    have part': "Permutation_Partition lo hi (NullPartitionPredicate False bits) q = (cnt, q1)"
      using part False by simp
    have eq: "SortRange False False (data c) bits \<lparr>range_from = lo, range_to = hi\<rparr> T q is_last =
       (if hi - cnt > 1
        then SortNonNullRange False (data c) \<lparr>range_from = mid, range_to = hi\<rparr> T1 q1 is_last
        else (T1, q1))"
      unfolding T1_def mid_def by (rule SortRange_ascending[OF part'])
    have B: "range_sorted ?kl ord is_last mid hi T1 q1 T' q'"
    proof (cases "hi - cnt > 1")
      case True
      with eq r nn False
      have "SortNonNullRange False (data c) \<lparr>range_from = mid, range_to = hi\<rparr> T1 q1 is_last = (T', q')"
        by simp
      from SortNonNullRange_sorted[OF mb(2) _ this, of ord] b l1
      have rs: "range_sorted (LessThanComparator False (data c)) ord is_last mid hi T1 q1 T' q'"
        by simp
      then have re: "rearranged mid hi q1 q'" by (simp add: range_sorted_def)
      have nnull: "\<And>i. mid \<le> i \<Longrightarrow> i < hi \<Longrightarrow> \<not> bits ! (q' ! i)"
      proof -
        fix i assume a: "mid \<le> i" "i < hi"
        from rearranged_inside[OF re a] obtain i' where "mid \<le> i'" "i' < hi" "q' ! i = q1 ! i'"
          by blast
        then show "\<not> bits ! (q' ! i)" using no False by simp
      qed
      have "range_sorted (column_less False c) ord is_last mid hi T1 q1 T' q'"
        using rs by (rule range_sorted_cong) (simp add: column_less_values[OF bits] nnull)
      then show ?thesis using False by simp
    next
      case small: False
      with eq r nn False have "T' = T1" "q' = q1" by simp_all
      moreover have "hi - mid \<le> 1" using small by (simp add: mid_def)
      ultimately show ?thesis
        using mb b l1 range_sorted_small[of mid hi q1 ?kl ord is_last T1] by simp
    qed
    show ?thesis
      by (rule range_sorted_join[OF swo mb b(2) P1 ps(5) cross A B])
  next
    case True
    obtain T1 q2 where st: "(if cnt > 1
          then SortNonNullRange True (data c) \<lparr>range_from = lo, range_to = lo + cnt\<rparr> T q1 is_last
          else (T, q1)) = (T1, q2)"
      by (cases "(if cnt > 1
          then SortNonNullRange True (data c) \<lparr>range_from = lo, range_to = lo + cnt\<rparr> T q1 is_last
          else (T, q1))") auto
    have A: "range_sorted ?kl ord is_last lo mid T q1 T1 q2"
    proof (cases "cnt > 1")
      case big: True
      with st have "SortNonNullRange True (data c) \<lparr>range_from = lo, range_to = mid\<rparr> T q1 is_last
          = (T1, q2)" by (simp add: mid_def)
      from SortNonNullRange_sorted[OF mb(1) _ this, of ord] mb b l1
      have rs: "range_sorted (LessThanComparator True (data c)) ord is_last lo mid T q1 T1 q2"
        by simp
      then have re: "rearranged lo mid q1 q2" by (simp add: range_sorted_def)
      have nnull: "\<And>i. lo \<le> i \<Longrightarrow> i < mid \<Longrightarrow> \<not> bits ! (q2 ! i)"
      proof -
        fix i assume a: "lo \<le> i" "i < mid"
        from rearranged_inside[OF re a] obtain i' where "lo \<le> i'" "i' < mid" "q2 ! i = q1 ! i'"
          by blast
        then show "\<not> bits ! (q2 ! i)" using yes True by simp
      qed
      have "range_sorted (column_less True c) ord is_last lo mid T q1 T1 q2"
        using rs by (rule range_sorted_cong) (simp add: column_less_values[OF bits] nnull)
      then show ?thesis using True by simp
    next
      case small: False
      with st have "T1 = T" "q2 = q1" by simp_all
      moreover have "mid - lo \<le> 1" using small by (simp add: mid_def)
      ultimately show ?thesis
        using mb b l1 range_sorted_small[of lo mid q1 ?kl ord is_last T] by simp
    qed
    then have re: "rearranged lo mid q1 q2" by (simp add: range_sorted_def)
    have l2: "length q2 = length q1" using re by (rule rearranged_length)
    have part': "Permutation_Partition lo hi (NullPartitionPredicate True bits) q = (cnt, q1)"
      using part True by simp
    have eq: "(T', q') =
       (if hi - cnt > 1 \<and> \<not> is_last then T1 @ [\<lparr>range_from = mid, range_to = hi\<rparr>] else T1, q2)"
      using SortRange_descending[OF part' st] r nn True unfolding mid_def by simp
    have nulls2: "\<And>i. mid \<le> i \<Longrightarrow> i < hi \<Longrightarrow> bits ! (q2 ! i)"
    proof -
      fix i assume a: "mid \<le> i" "i < hi"
      then have "q2 ! i = q1 ! i" using rearranged_outside[OF re, of i] b l1 by simp
      then show "bits ! (q2 ! i)" using no[OF a] True by simp
    qed
    have B: "range_sorted ?kl ord is_last mid hi T1 q2 T' q'"
    proof (cases "hi - cnt > 1")
      case big: True
      have "\<forall>i j. mid \<le> i \<and> i < hi \<and> mid \<le> j \<and> j < hi \<longrightarrow> \<not> ?kl (q2 ! i) (q2 ! j)"
        using nulls2 column_less_nulls[OF bits] by simp
      moreover have "T' = (if is_last then T1 else T1 @ [\<lparr>range_from = mid, range_to = hi\<rparr>])"
        using eq big by simp
      moreover have "q' = q2" using eq by simp
      ultimately show ?thesis using mb b l1 l2 range_sorted_equal[of mid hi q2 ?kl T' is_last T1 ord]
        by simp
    next
      case small: False
      with eq have "T' = T1" "q' = q2" by simp_all
      moreover have "hi - mid \<le> 1" using small by (simp add: mid_def)
      ultimately show ?thesis
        using mb b l1 l2 range_sorted_small[of mid hi q2 ?kl ord is_last T1] by simp
    qed
    show ?thesis
      by (rule range_sorted_join[OF swo mb b(2) P1 ps(5) cross A B])
  qed
qed

subsection \<open>One pass over the ranges of a key column\<close>

lemma column_pass_start:
  assumes "sort_invariant E L ord R p"
  shows "column_pass E L kl ord is_last R [] p"
  using assms unfolding sort_invariant_def column_pass_def by auto

lemma ranges_ordered_replace:
  assumes o: "ranges_ordered n (T @ r # R)"
    and s: "sorted_wrt (\<lambda>r s. range_to r \<le> range_from s) N"
    and u: "\<forall>u \<in> set N. range_from r \<le> range_from u \<and> range_from u \<le> range_to u \<and>
        range_to u \<le> range_to r"
  shows "ranges_ordered n ((T @ N) @ R)"
proof -
  from o have oT: "sorted_wrt (\<lambda>r s. range_to r \<le> range_from s) T"
    and oR: "sorted_wrt (\<lambda>r s. range_to r \<le> range_from s) R"
    and Tr: "\<forall>t \<in> set T. range_to t \<le> range_from r"
    and TR: "\<forall>t \<in> set T. \<forall>r' \<in> set R. range_to t \<le> range_from r'"
    and rR: "\<forall>r' \<in> set R. range_to r \<le> range_from r'"
    and bd: "\<forall>x \<in> set T \<union> {r} \<union> set R. range_from x \<le> range_to x \<and> range_to x \<le> n"
    unfolding ranges_ordered_def sorted_wrt_append by auto
  have 1: "\<forall>t \<in> set T. \<forall>u \<in> set N. range_to t \<le> range_from u"
    using Tr u by (meson le_trans)
  have 2: "\<forall>u \<in> set N. \<forall>r' \<in> set R. range_to u \<le> range_from r'"
    using rR u by (meson le_trans)
  have 3: "\<forall>u \<in> set N. range_from u \<le> range_to u \<and> range_to u \<le> n"
    using u bd by (meson UnCI insertI1 le_trans)
  show ?thesis
    unfolding ranges_ordered_def sorted_wrt_append
    using oT oR s TR 1 2 3 bd by auto
qed


lemma column_pass_D:
  assumes J: "column_pass E L kl ord is_last Rrest T q"
  shows "ranges_ordered (length q) (T @ Rrest)"
    and "\<And>r' i j. r' \<in> set Rrest \<Longrightarrow> range_from r' \<le> i \<and> i < range_to r' \<and>
          range_from r' \<le> j \<and> j < range_to r' \<Longrightarrow> E (q ! i) (q ! j)"
    and "\<And>t i j. t \<in> set T \<Longrightarrow> range_from t \<le> i \<and> i < j \<and> j < range_to t
           \<Longrightarrow> E (q ! i) (q ! j) \<and> \<not> kl (q ! i) (q ! j)"
    and "\<And>i j. i < j \<and> j < length q \<and> E (q ! i) (q ! j) \<Longrightarrow>
           (\<exists>r' \<in> set Rrest. range_from r' \<le> i \<and> j < range_to r') \<or>
           ((\<forall>r' \<in> set Rrest. j < range_from r') \<and> \<not> kl (q ! j) (q ! i) \<and>
            (is_last \<or> kl (q ! i) (q ! j) \<or> (\<exists>t \<in> set T. range_from t \<le> i \<and> j < range_to t)))"
    and "\<And>i j. i < j \<and> j < length q \<and> E (q ! i) (q ! j) \<and>
             ((\<exists>r' \<in> set Rrest. range_from r' \<le> i \<and> j < range_to r') \<or> \<not> kl (q ! i) (q ! j))
           \<Longrightarrow> ord (q ! i) (q ! j)"
    and "is_last \<longrightarrow> T = []"
    and "\<And>i j. i < j \<and> j < length q \<Longrightarrow> \<not> L (q ! j) (q ! i)"
proof -
  note c = J[unfolded column_pass_def]
  show "ranges_ordered (length q) (T @ Rrest)" using c by (elim conjE)
  show "\<And>r' i j. r' \<in> set Rrest \<Longrightarrow> range_from r' \<le> i \<and> i < range_to r' \<and>
          range_from r' \<le> j \<and> j < range_to r' \<Longrightarrow> E (q ! i) (q ! j)"
    using conjunct1[OF conjunct2[OF c]] by blast
  show "\<And>t i j. t \<in> set T \<Longrightarrow> range_from t \<le> i \<and> i < j \<and> j < range_to t
           \<Longrightarrow> E (q ! i) (q ! j) \<and> \<not> kl (q ! i) (q ! j)"
    using conjunct1[OF conjunct2[OF conjunct2[OF c]]] by blast
  show "\<And>i j. i < j \<and> j < length q \<and> E (q ! i) (q ! j) \<Longrightarrow>
           (\<exists>r' \<in> set Rrest. range_from r' \<le> i \<and> j < range_to r') \<or>
           ((\<forall>r' \<in> set Rrest. j < range_from r') \<and> \<not> kl (q ! j) (q ! i) \<and>
            (is_last \<or> kl (q ! i) (q ! j) \<or> (\<exists>t \<in> set T. range_from t \<le> i \<and> j < range_to t)))"
    using conjunct1[OF conjunct2[OF conjunct2[OF conjunct2[OF c]]]] by (elim allE impE) assumption+
  show "\<And>i j. i < j \<and> j < length q \<and> E (q ! i) (q ! j) \<and>
             ((\<exists>r' \<in> set Rrest. range_from r' \<le> i \<and> j < range_to r') \<or> \<not> kl (q ! i) (q ! j))
           \<Longrightarrow> ord (q ! i) (q ! j)"
    using conjunct1[OF conjunct2[OF conjunct2[OF conjunct2[OF conjunct2[OF c]]]]]
    by (elim allE impE) assumption+
  show "is_last \<longrightarrow> T = []"
    using conjunct1[OF conjunct2[OF conjunct2[OF conjunct2[OF conjunct2[OF conjunct2[OF c]]]]]] .
  show "\<And>i j. i < j \<and> j < length q \<Longrightarrow> \<not> L (q ! j) (q ! i)"
    using conjunct2[OF conjunct2[OF conjunct2[OF conjunct2[OF conjunct2[OF conjunct2[OF c]]]]]]
    by blast
qed

lemma column_pass_step:
  assumes kr: "key_relations E L kl"
    and J: "column_pass E L kl ord is_last (r # R) T q"
    and rs: "range_sorted kl ord is_last (range_from r) (range_to r) T q T' q'"
  shows "column_pass E L kl ord is_last R T' q'"
proof -
  define lo where "lo = range_from r"
  define hi where "hi = range_to r"
  define n where "n = length q"
  from kr have Erefl: "\<And>a. E a a" and Esym: "\<And>a b. E a b \<Longrightarrow> E b a"
    and Etrans: "\<And>a b c. E a b \<Longrightarrow> E b c \<Longrightarrow> E a c"
    and Lcong: "\<And>a a' b b'. E a a' \<Longrightarrow> E b b' \<Longrightarrow> L a b = L a' b'"
    and swo: "strict_weak_order kl"
    unfolding key_relations_def by blast+
  note Jd = column_pass_D[OF J, folded n_def]
  have J1: "ranges_ordered n (T @ r # R)" by (rule Jd(1))
  note J2 = Jd(2) and J3 = Jd(3) and J4 = Jd(4) and J5 = Jd(5) and J6 = Jd(6) and J7 = Jd(7)
  from rs obtain N where re: "rearranged lo hi q q'"
    and S2: "\<And>i j. lo \<le> i \<and> i < j \<and> j < hi \<Longrightarrow> \<not> kl (q' ! j) (q' ! i)"
    and S3: "(\<forall>i j. lo \<le> i \<and> i < j \<and> j < hi \<longrightarrow> ord (q ! i) (q ! j)) \<longrightarrow>
       (\<forall>i j. lo \<le> i \<and> i < j \<and> j < hi \<and> \<not> kl (q' ! i) (q' ! j) \<longrightarrow> ord (q' ! i) (q' ! j))"
    and S4: "T' = T @ N" "sorted_wrt (\<lambda>r s. range_to r \<le> range_from s) N"
    and S5: "\<forall>u \<in> set N. lo \<le> range_from u \<and> range_from u \<le> range_to u \<and> range_to u \<le> hi \<and>
                (\<forall>i j. range_from u \<le> i \<and> i < j \<and> j < range_to u
                    \<longrightarrow> \<not> kl (q' ! i) (q' ! j))"
    and S6: "if is_last then N = []
            else (\<forall>i j. lo \<le> i \<and> i < j \<and> j < hi \<and> \<not> kl (q' ! i) (q' ! j)
                    \<longrightarrow> (\<exists>u \<in> set N. range_from u \<le> i \<and> j < range_to u))"
    unfolding range_sorted_def lo_def hi_def by blast
  have bnd: "lo \<le> hi" "hi \<le> n" using re by (simp_all add: rearranged_def n_def)
  have len: "length q' = n" using re by (simp add: rearranged_def n_def)
  have out: "\<And>i. i < lo \<or> hi \<le> i \<Longrightarrow> i < n \<Longrightarrow> q' ! i = q ! i"
    using rearranged_outside[OF re] by (simp add: n_def)
  have above: "\<And>r'. r' \<in> set R \<Longrightarrow> hi \<le> range_from r' \<and> range_from r' \<le> range_to r' \<and> range_to r' \<le> n"
    using J1 unfolding ranges_ordered_def sorted_wrt_append hi_def by auto
  have below: "\<And>t. t \<in> set T \<Longrightarrow> range_to t \<le> lo"
    using J1 unfolding ranges_ordered_def sorted_wrt_append lo_def by auto
  have inE: "\<And>i j. lo \<le> i \<Longrightarrow> i < hi \<Longrightarrow> lo \<le> j \<Longrightarrow> j < hi \<Longrightarrow> E (q ! i) (q ! j)"
    using J2[of r] by (simp add: lo_def hi_def)
  have Epos: "\<And>i. i < n \<Longrightarrow> E (q' ! i) (q ! i)"
  proof -
    fix i assume i: "i < n"
    show "E (q' ! i) (q ! i)"
    proof (cases "lo \<le> i \<and> i < hi")
      case True
      with rearranged_inside[OF re, of i] obtain i' where "lo \<le> i'" "i' < hi" "q' ! i = q ! i'"
        by blast
      then show ?thesis using inE True by simp
    next
      case False
      then have "q' ! i = q ! i" using out i by auto
      then show ?thesis using Erefl by simp
    qed
  qed
  have Eiff: "\<And>i j. i < n \<Longrightarrow> j < n \<Longrightarrow> E (q' ! i) (q' ! j) = E (q ! i) (q ! j)"
  proof -
    fix i j assume ij: "i < n" "j < n"
    have ei: "E (q' ! i) (q ! i)" and ej: "E (q' ! j) (q ! j)" using Epos ij by auto
    show "E (q' ! i) (q' ! j) = E (q ! i) (q ! j)"
    proof
      assume "E (q' ! i) (q' ! j)"
      then have "E (q ! i) (q' ! j)" using Etrans[OF Esym[OF ei]] by simp
      then show "E (q ! i) (q ! j)" using Etrans ej by blast
    next
      assume "E (q ! i) (q ! j)"
      then have "E (q' ! i) (q ! j)" using Etrans[OF ei] by simp
      then show "E (q' ! i) (q' ! j)" using Etrans Esym[OF ej] by blast
    qed
  qed
  have K1: "ranges_ordered (length q') (T' @ R)"
    unfolding len S4(1)
    by (rule ranges_ordered_replace[OF J1 S4(2)]) (use S5 in \<open>auto simp: lo_def hi_def\<close>)
  have K2: "\<forall>r' \<in> set R. \<forall>i j. range_from r' \<le> i \<and> i < range_to r' \<and> range_from r' \<le> j \<and> j < range_to r'
           \<longrightarrow> E (q' ! i) (q' ! j)"
  proof (intro ballI allI impI)
    fix r' i j assume r': "r' \<in> set R"
      and a: "range_from r' \<le> i \<and> i < range_to r' \<and> range_from r' \<le> j \<and> j < range_to r'"
    from above[OF r'] a have "hi \<le> i" "i < n" "hi \<le> j" "j < n" by auto
    then have "q' ! i = q ! i" "q' ! j = q ! j" using out by auto
    then show "E (q' ! i) (q' ! j)" using J2[of r' i j] r' a by simp
  qed
  have K3: "\<forall>t \<in> set T'. \<forall>i j. range_from t \<le> i \<and> i < j \<and> j < range_to t
           \<longrightarrow> E (q' ! i) (q' ! j) \<and> \<not> kl (q' ! i) (q' ! j)"
  proof (intro ballI allI impI)
    fix t i j assume t: "t \<in> set T'" and a: "range_from t \<le> i \<and> i < j \<and> j < range_to t"
    from t consider "t \<in> set T" | "t \<in> set N" using S4(1) by auto
    then show "E (q' ! i) (q' ! j) \<and> \<not> kl (q' ! i) (q' ! j)"
    proof cases
      case 1
      from below[OF 1] a bnd have "i < lo" "i < n" "j < lo" "j < n" by auto
      then have "q' ! i = q ! i" "q' ! j = q ! j" using out by auto
      then show ?thesis using J3[OF 1 a] by simp
    next
      case 2
      with S5 have ub: "lo \<le> range_from t" "range_to t \<le> hi"
        and ue: "\<not> kl (q' ! i) (q' ! j)" using a by auto
      have "lo \<le> i" "i < hi" "lo \<le> j" "j < hi" using ub a by auto
      then have "E (q ! i) (q ! j)" "i < n" "j < n" using inE bnd by auto
      then show ?thesis using Eiff ue by simp
    qed
  qed
  have ordr: "\<forall>i j. lo \<le> i \<and> i < j \<and> j < hi \<longrightarrow> ord (q ! i) (q ! j)"
  proof (intro allI impI)
    fix i j assume a: "lo \<le> i \<and> i < j \<and> j < hi"
    then have "E (q ! i) (q ! j)" using inE by simp
    moreover have "\<exists>r' \<in> set (r # R). range_from r' \<le> i \<and> j < range_to r'"
      using a by (auto simp: lo_def hi_def)
    ultimately show "ord (q ! i) (q ! j)" using J5[of i j] a bnd by simp
  qed
  with S3 have stab: "\<And>i j. lo \<le> i \<and> i < j \<and> j < hi \<and> \<not> kl (q' ! i) (q' ! j) \<Longrightarrow> ord (q' ! i) (q' ! j)"
    by blast
  have tri: "\<And>i j. i < j \<Longrightarrow> j < n \<Longrightarrow> E (q' ! i) (q' ! j) \<Longrightarrow>
      (lo \<le> i \<and> j < hi) \<or>
      (\<exists>r' \<in> set R. range_from r' \<le> i \<and> j < range_to r') \<or>
      (j < lo \<and> \<not> kl (q ! j) (q ! i) \<and>
         (is_last \<or> kl (q ! i) (q ! j) \<or> (\<exists>t \<in> set T. range_from t \<le> i \<and> j < range_to t)))"
  proof -
    fix i j assume a: "i < j" "j < n" "E (q' ! i) (q' ! j)"
    then have "E (q ! i) (q ! j)" using Eiff by simp
    from J4[of i j] a this show "(lo \<le> i \<and> j < hi) \<or>
      (\<exists>r' \<in> set R. range_from r' \<le> i \<and> j < range_to r') \<or>
      (j < lo \<and> \<not> kl (q ! j) (q ! i) \<and>
         (is_last \<or> kl (q ! i) (q ! j) \<or> (\<exists>t \<in> set T. range_from t \<le> i \<and> j < range_to t)))"
      by (auto simp: lo_def hi_def)
  qed
  have K4: "\<forall>i j. i < j \<and> j < length q' \<and> E (q' ! i) (q' ! j) \<longrightarrow>
           (\<exists>r' \<in> set R. range_from r' \<le> i \<and> j < range_to r') \<or>
           ((\<forall>r' \<in> set R. j < range_from r') \<and> \<not> kl (q' ! j) (q' ! i) \<and>
            (is_last \<or> kl (q' ! i) (q' ! j) \<or> (\<exists>t \<in> set T'. range_from t \<le> i \<and> j < range_to t)))"
  proof (intro allI impI)
    fix i j assume a: "i < j \<and> j < length q' \<and> E (q' ! i) (q' ! j)"
    then have b: "i < j" "j < n" "E (q' ! i) (q' ! j)" using len by auto
    from tri[OF b] consider
      (new) "lo \<le> i \<and> j < hi"
      | (rest) "\<exists>r' \<in> set R. range_from r' \<le> i \<and> j < range_to r'"
      | (old) "j < lo \<and> \<not> kl (q ! j) (q ! i) \<and>
         (is_last \<or> kl (q ! i) (q ! j) \<or> (\<exists>t \<in> set T. range_from t \<le> i \<and> j < range_to t))"
      by blast
    then show "(\<exists>r' \<in> set R. range_from r' \<le> i \<and> j < range_to r') \<or>
           ((\<forall>r' \<in> set R. j < range_from r') \<and> \<not> kl (q' ! j) (q' ! i) \<and>
            (is_last \<or> kl (q' ! i) (q' ! j) \<or> (\<exists>t \<in> set T'. range_from t \<le> i \<and> j < range_to t)))"
    proof cases
      case new
      have 1: "\<forall>r' \<in> set R. j < range_from r'" using above new by fastforce
      have 2: "\<not> kl (q' ! j) (q' ! i)" using S2[of i j] new b by simp
      have 3: "is_last \<or> kl (q' ! i) (q' ! j) \<or> (\<exists>t \<in> set T'. range_from t \<le> i \<and> j < range_to t)"
      proof (cases "is_last \<or> kl (q' ! i) (q' ! j)")
        case True then show ?thesis by blast
      next
        case False
        with S6 new b obtain u where "u \<in> set N" "range_from u \<le> i \<and> j < range_to u" by auto
        then show ?thesis using S4(1) by auto
      qed
      from 1 2 3 show ?thesis by blast
    next
      case rest
      then show ?thesis by blast
    next
      case old
      then have e: "q' ! i = q ! i" "q' ! j = q ! j" using out[of i] out[of j] b by auto
      have 1: "\<forall>r' \<in> set R. j < range_from r'" using above old bnd by fastforce
      from old e S4(1) 1 show ?thesis by auto
    qed
  qed
  have K5: "\<forall>i j. i < j \<and> j < length q' \<and> E (q' ! i) (q' ! j) \<and>
             ((\<exists>r' \<in> set R. range_from r' \<le> i \<and> j < range_to r') \<or> \<not> kl (q' ! i) (q' ! j))
           \<longrightarrow> ord (q' ! i) (q' ! j)"
  proof (intro allI impI)
    fix i j assume a: "i < j \<and> j < length q' \<and> E (q' ! i) (q' ! j) \<and>
             ((\<exists>r' \<in> set R. range_from r' \<le> i \<and> j < range_to r') \<or> \<not> kl (q' ! i) (q' ! j))"
    then have b: "i < j" "j < n" "E (q' ! i) (q' ! j)" using len by auto
    have Eq: "E (q ! i) (q ! j)" using b Eiff by simp
    from tri[OF b] consider
      (rest) "\<exists>r' \<in> set R. range_from r' \<le> i \<and> j < range_to r'"
      | (new) "lo \<le> i \<and> j < hi" "\<not> kl (q' ! i) (q' ! j)"
      | (old) "j < lo" "\<not> kl (q' ! i) (q' ! j)"
      using a by blast
    then show "ord (q' ! i) (q' ! j)"
    proof cases
      case rest
      then obtain r' where r': "r' \<in> set R" "range_from r' \<le> i \<and> j < range_to r'" by blast
      with above[OF r'(1)] b have "hi \<le> i" "hi \<le> j" by auto
      then have e: "q' ! i = q ! i" "q' ! j = q ! j" using out b by auto
      have "\<exists>r' \<in> set (r # R). range_from r' \<le> i \<and> j < range_to r'" using r' by auto
      then show ?thesis using J5[of i j] b Eq e by simp
    next
      case new
      then show ?thesis using stab[of i j] b by simp
    next
      case old
      then have e: "q' ! i = q ! i" "q' ! j = q ! j" using out[of i] out[of j] b by auto
      then show ?thesis using J5[of i j] b Eq old by simp
    qed
  qed
  have K6: "is_last \<longrightarrow> T' = []" using J6 S6 S4(1) by auto
  have K7: "\<forall>i j. i < j \<and> j < length q' \<longrightarrow> \<not> L (q' ! j) (q' ! i)"
  proof (intro allI impI)
    fix i j assume a: "i < j \<and> j < length q'"
    then have "i < n" "j < n" using len by auto
    then have "L (q' ! j) (q' ! i) = L (q ! j) (q ! i)" using Lcong Epos by blast
    then show "\<not> L (q' ! j) (q' ! i)" using J7[of i j] a len by simp
  qed
  show ?thesis unfolding column_pass_def by (intro conjI K1 K2 K3 K4 K5 K6 K7)
qed

subsection \<open>The whole pass of one key column\<close>

lemma SortColumnResolved_pass:
  assumes kr: "key_relations E L (column_less descending c)"
    and col: "case is_null c of None \<Rightarrow> is_always_not_null
              | Some bs \<Rightarrow> \<not> is_always_not_null \<and> bits = bs"
  shows "column_pass E L (column_less descending c) ord is_last R T q \<Longrightarrow>
     SortColumnResolved descending is_always_not_null (data c) bits R T q is_last = (T', q') \<Longrightarrow>
     column_pass E L (column_less descending c) ord is_last [] T' q' \<and> mset q' = mset q"
proof (induction R arbitrary: T q)
  case Nil
  then show ?case by (simp add: SortColumnResolved_def)
next
  case (Cons r R)
  obtain T1 q1 where s1: "SortRange descending is_always_not_null (data c) bits r T q is_last = (T1, q1)"
    by (cases "SortRange descending is_always_not_null (data c) bits r T q is_last") auto
  have r: "r = \<lparr>range_from = range_from r, range_to = range_to r\<rparr>" by simp
  have ro: "ranges_ordered (length q) (T @ r # R)" using column_pass_D(1)[OF Cons.prems(1)] .
  then have b: "range_from r \<le> range_to r" "range_to r \<le> length q"
    unfolding ranges_ordered_def by auto
  have "SortRange descending is_always_not_null (data c) bits
      \<lparr>range_from = range_from r, range_to = range_to r\<rparr> T q is_last = (T1, q1)"
    using s1 by (simp only: r[symmetric])
  from SortRange_sorted[OF b col this]
  have rs: "range_sorted (column_less descending c) ord is_last (range_from r) (range_to r) T q T1 q1" .
  have J1: "column_pass E L (column_less descending c) ord is_last R T1 q1"
    by (rule column_pass_step[OF kr Cons.prems(1) rs])
  have "rearranged (range_from r) (range_to r) q q1" using rs by (simp add: range_sorted_def)
  then have m1: "mset q1 = mset q" by (rule rearranged_mset)
  have "SortColumnResolved descending is_always_not_null (data c) bits R T1 q1 is_last = (T', q')"
    using Cons.prems(2) s1 by (simp add: SortColumnResolved_def)
  from Cons.IH[OF J1 this] m1 show ?case by simp
qed

lemma SortColumn_pass:
  assumes kr: "key_relations E L (column_less descending c)"
    and J: "column_pass E L (column_less descending c) ord is_last R T q"
    and r: "SortColumn descending (data c) (is_null c) R T q is_last = (T', q')"
  shows "column_pass E L (column_less descending c) ord is_last [] T' q' \<and> mset q' = mset q"
proof (cases "is_null c")
  case None
  then have col: "case is_null c of None \<Rightarrow> True | Some bs \<Rightarrow> \<not> True \<and> [] = bs" by simp
  have "SortColumnResolved descending True (data c) [] R T q is_last = (T', q')"
    using r None by (cases descending) (simp_all add: SortColumn_def)
  from SortColumnResolved_pass[OF kr col J this] show ?thesis .
next
  case (Some bits)
  then have col: "case is_null c of None \<Rightarrow> False | Some bs \<Rightarrow> \<not> False \<and> bits = bs" by simp
  have "SortColumnResolved descending False (data c) bits R T q is_last = (T', q')"
    using r Some by (cases descending) (simp_all add: SortColumn_def)
  from SortColumnResolved_pass[OF kr col J this] show ?thesis .
qed

subsection \<open>From one key column to the next\<close>

lemma column_pass_done:
  assumes kr: "key_relations E L kl"
    and J: "column_pass E L kl ord is_last [] T q"
  shows "\<forall>i j. i < j \<and> j < length q \<longrightarrow> \<not> (L (q ! j) (q ! i) \<or> (E (q ! j) (q ! i) \<and> kl (q ! j) (q ! i)))"
    and "\<forall>i j. i < j \<and> j < length q \<and> (E (q ! i) (q ! j) \<and> \<not> kl (q ! i) (q ! j) \<and> \<not> kl (q ! j) (q ! i))
           \<longrightarrow> ord (q ! i) (q ! j)"
    and "\<not> is_last \<Longrightarrow> T = [] \<Longrightarrow>
         \<forall>i j. i < j \<and> j < length q \<longrightarrow> \<not> (E (q ! i) (q ! j) \<and> \<not> kl (q ! i) (q ! j) \<and> \<not> kl (q ! j) (q ! i))"
    and "\<not> is_last \<Longrightarrow>
         sort_invariant (\<lambda>a b. E a b \<and> \<not> kl a b \<and> \<not> kl b a) (\<lambda>a b. L a b \<or> (E a b \<and> kl a b)) ord T q"
proof -
  from kr have Erefl: "\<And>a. E a a" and Esym: "\<And>a b. E a b \<Longrightarrow> E b a"
    and swo: "strict_weak_order kl"
    unfolding key_relations_def by blast+
  note Jd = column_pass_D[OF J]
  have J4: "\<And>i j. i < j \<Longrightarrow> j < length q \<Longrightarrow> E (q ! i) (q ! j) \<Longrightarrow>
      \<not> kl (q ! j) (q ! i) \<and> (is_last \<or> kl (q ! i) (q ! j) \<or> (\<exists>t \<in> set T. range_from t \<le> i \<and> j < range_to t))"
    using Jd(4) by fastforce
  have J5: "\<And>i j. i < j \<Longrightarrow> j < length q \<Longrightarrow> E (q ! i) (q ! j) \<Longrightarrow> \<not> kl (q ! i) (q ! j) \<Longrightarrow> ord (q ! i) (q ! j)"
    using Jd(5) by blast
  show S: "\<forall>i j. i < j \<and> j < length q \<longrightarrow> \<not> (L (q ! j) (q ! i) \<or> (E (q ! j) (q ! i) \<and> kl (q ! j) (q ! i)))"
  proof (intro allI impI)
    fix i j assume a: "i < j \<and> j < length q"
    have "\<not> L (q ! j) (q ! i)" using Jd(7) a by blast
    moreover have "\<not> (E (q ! j) (q ! i) \<and> kl (q ! j) (q ! i))"
      using J4[of i j] a Esym by blast
    ultimately show "\<not> (L (q ! j) (q ! i) \<or> (E (q ! j) (q ! i) \<and> kl (q ! j) (q ! i)))" by blast
  qed
  show O: "\<forall>i j. i < j \<and> j < length q \<and> (E (q ! i) (q ! j) \<and> \<not> kl (q ! i) (q ! j) \<and> \<not> kl (q ! j) (q ! i))
           \<longrightarrow> ord (q ! i) (q ! j)"
    using J5 by blast
  show "\<not> is_last \<Longrightarrow> T = [] \<Longrightarrow>
         \<forall>i j. i < j \<and> j < length q \<longrightarrow> \<not> (E (q ! i) (q ! j) \<and> \<not> kl (q ! i) (q ! j) \<and> \<not> kl (q ! j) (q ! i))"
    using J4 by fastforce
  show "sort_invariant (\<lambda>a b. E a b \<and> \<not> kl a b \<and> \<not> kl b a) (\<lambda>a b. L a b \<or> (E a b \<and> kl a b)) ord T q"
    if nl: "\<not> is_last"
  proof -
    have 1: "ranges_ordered (length q) T" using Jd(1) by simp
    have 2: "\<forall>r \<in> set T. \<forall>i j. range_from r \<le> i \<and> i < range_to r \<and> range_from r \<le> j \<and> j < range_to r
           \<longrightarrow> E (q ! i) (q ! j) \<and> \<not> kl (q ! i) (q ! j) \<and> \<not> kl (q ! j) (q ! i)"
    proof (intro ballI allI impI)
      fix t i j assume t: "t \<in> set T"
        and a: "range_from t \<le> i \<and> i < range_to t \<and> range_from t \<le> j \<and> j < range_to t"
      have tb: "range_to t \<le> length q" using 1 t unfolding ranges_ordered_def by auto
      consider "i < j" | "j < i" | "i = j" by linarith
      then show "E (q ! i) (q ! j) \<and> \<not> kl (q ! i) (q ! j) \<and> \<not> kl (q ! j) (q ! i)"
      proof cases
        case 1
        then have e: "E (q ! i) (q ! j) \<and> \<not> kl (q ! i) (q ! j)" using Jd(3)[OF t, of i j] a by simp
        then show ?thesis using J4[of i j] 1 a tb by simp
      next
        case 2
        then have e: "E (q ! j) (q ! i) \<and> \<not> kl (q ! j) (q ! i)" using Jd(3)[OF t, of j i] a by simp
        then show ?thesis using J4[of j i] 2 a tb Esym by simp
      next
        case 3
        then show ?thesis using Erefl swo_irrefl[OF swo] by simp
      qed
    qed
    have 3: "\<forall>i j. i < j \<and> j < length q \<and> (E (q ! i) (q ! j) \<and> \<not> kl (q ! i) (q ! j) \<and> \<not> kl (q ! j) (q ! i))
           \<longrightarrow> (\<exists>r \<in> set T. range_from r \<le> i \<and> j < range_to r) \<and> ord (q ! i) (q ! j)"
      using J4 J5 nl by blast
    show ?thesis unfolding sort_invariant_def by (intro conjI 1 2 3 S)
  qed
qed

subsection \<open>The lexicographic order of the sort keys\<close>

lemma swo_key_less: "strict_weak_order (key_less input key)"
proof -
  have "key_less input key = column_less (snd key = DESCENDING) (columns input ! fst key)"
    by (intro ext) (simp add: key_less_def)
  then show ?thesis using swo_column_less by simp
qed

lemma key_less_cong:
  assumes "\<not> key_less input key a a'" "\<not> key_less input key a' a"
    and "\<not> key_less input key b b'" "\<not> key_less input key b' b"
  shows "key_less input key a b = key_less input key a' b'"
proof
  assume "key_less input key a b"
  then have "key_less input key a' b"
    using swo_less_equiv_left[OF swo_key_less] assms(1) by blast
  then show "key_less input key a' b'"
    using swo_less_equiv_right[OF swo_key_less] assms(4) by blast
next
  assume "key_less input key a' b'"
  then have "key_less input key a b'"
    using swo_less_equiv_left[OF swo_key_less] assms(2) by blast
  then show "key_less input key a b"
    using swo_less_equiv_right[OF swo_key_less] assms(3) by blast
qed

lemma keys_equal_Nil: "keys_equal input [] a b"
  by (simp add: keys_equal_def)

lemma keys_equal_Cons:
  "keys_equal input (key # keys) a b =
     (\<not> key_less input key a b \<and> \<not> key_less input key b a \<and> keys_equal input keys a b)"
  by (auto simp: keys_equal_def)

lemma keys_equal_snoc:
  "keys_equal input (keys @ [key]) a b =
     (keys_equal input keys a b \<and> \<not> key_less input key a b \<and> \<not> key_less input key b a)"
  by (auto simp: keys_equal_def)

lemma keys_equal_append:
  "keys_equal input (ks @ ks') a b = (keys_equal input ks a b \<and> keys_equal input ks' a b)"
  by (auto simp: keys_equal_def)

lemma keys_equal_refl: "keys_equal input keys a a"
proof -
  have "\<And>key. \<not> key_less input key a a" by (rule swo_irrefl[OF swo_key_less])
  then show ?thesis by (simp add: keys_equal_def)
qed

lemma keys_equal_sym: "keys_equal input keys a b \<Longrightarrow> keys_equal input keys b a"
  by (auto simp: keys_equal_def)

lemma keys_equal_trans:
  "keys_equal input keys a b \<Longrightarrow> keys_equal input keys b c \<Longrightarrow> keys_equal input keys a c"
  unfolding keys_equal_def using swo_negtrans[OF swo_key_less] by blast

lemma row_less_cong:
  "keys_equal input keys a a' \<Longrightarrow> keys_equal input keys b b' \<Longrightarrow>
     row_less keys input a b = row_less keys input a' b'"
proof (induction keys)
  case Nil
  then show ?case by simp
next
  case (Cons key keys)
  then have e: "\<not> key_less input key a a'" "\<not> key_less input key a' a"
      "\<not> key_less input key b b'" "\<not> key_less input key b' b"
    and r: "keys_equal input keys a a'" "keys_equal input keys b b'"
    by (simp_all add: keys_equal_Cons)
  have 1: "key_less input key a b = key_less input key a' b'" by (rule key_less_cong[OF e])
  have 2: "key_less input key b a = key_less input key b' a'"
    by (rule key_less_cong[OF e(3,4,1,2)])
  have 3: "row_less keys input a b = row_less keys input a' b'" by (rule Cons.IH[OF r])
  show ?case using 1 2 3 by simp
qed

lemma row_less_append:
  "row_less (ks @ ks') input a b =
     (row_less ks input a b \<or> (keys_equal input ks a b \<and> row_less ks' input a b))"
proof (induction ks)
  case Nil
  then show ?case by (simp add: keys_equal_Nil)
next
  case (Cons key ks)
  show ?case
    using swo_asym[OF swo_key_less, of input key a b]
    by (auto simp: Cons.IH keys_equal_Cons)
qed

lemma row_less_snoc:
  "row_less (ks @ [key]) input a b =
     (row_less ks input a b \<or> (keys_equal input ks a b \<and> key_less input key a b))"
  by (simp add: row_less_append)

lemma key_relations_keys:
  "key_relations (keys_equal input ks) (row_less ks input) (key_less input key)"
  unfolding key_relations_def
proof (intro conjI allI impI)
  fix a show "keys_equal input ks a a" by (rule keys_equal_refl)
next
  fix a b assume "keys_equal input ks a b" then show "keys_equal input ks b a"
    by (rule keys_equal_sym)
next
  fix a b c assume "keys_equal input ks a b" "keys_equal input ks b c"
  then show "keys_equal input ks a c" by (rule keys_equal_trans)
next
  fix a a' b b' assume "keys_equal input ks a a'" "keys_equal input ks b b'"
  then show "row_less ks input a b = row_less ks input a' b'" by (rule row_less_cong)
next
  show "strict_weak_order (key_less input key)" by (rule swo_key_less)
qed

subsection \<open>All key columns\<close>

lemma sort_by_columns_step:
  "sort_by_columns (key # ks) input R p =
     (let st = SortColumn (snd key = DESCENDING) (data (columns input ! fst key))
                 (is_null (columns input ! fst key)) R [] p (ks = [])
      in if fst st = [] then snd st else sort_by_columns ks input (fst st) (snd st))"
  by (simp add: Let_def split: prod.splits)

lemma sort_by_columns_sorted:
  "sort_invariant (keys_equal input ds) (row_less ds input) ord R p \<Longrightarrow>
     mset (sort_by_columns ks input R p) = mset p \<and>
     (\<forall>i j. i < j \<and> j < length p \<longrightarrow>
        \<not> row_less (ds @ ks) input (sort_by_columns ks input R p ! j) (sort_by_columns ks input R p ! i)) \<and>
     (\<forall>i j. i < j \<and> j < length p \<and>
          keys_equal input (ds @ ks) (sort_by_columns ks input R p ! i) (sort_by_columns ks input R p ! j)
        \<longrightarrow> ord (sort_by_columns ks input R p ! i) (sort_by_columns ks input R p ! j))"
proof (induction ks arbitrary: ds R p)
  case Nil
  then show ?case unfolding sort_invariant_def by simp
next
  case (Cons key ks)
  let ?E = "keys_equal input ds" and ?L = "row_less ds input"
  define c where "c = columns input ! fst key"
  define desc where "desc = (snd key = DESCENDING)"
  define is_last where "is_last = (ks = [])"
  have kl: "key_less input key = column_less desc c"
    by (intro ext) (simp add: key_less_def c_def desc_def)
  obtain T p1 where sc: "SortColumn desc (data c) (is_null c) R [] p is_last = (T, p1)"
    by (cases "SortColumn desc (data c) (is_null c) R [] p is_last") auto
  have res: "sort_by_columns (key # ks) input R p =
      (if T = [] then p1 else sort_by_columns ks input T p1)"
    using sc unfolding sort_by_columns_step c_def desc_def is_last_def by (simp add: Let_def)
  have kr: "key_relations ?E ?L (column_less desc c)"
    using key_relations_keys[of input ds key] kl by simp
  have J0: "column_pass ?E ?L (column_less desc c) ord is_last R [] p"
    by (rule column_pass_start[OF Cons.prems])
  from SortColumn_pass[OF kr J0 sc]
  have Je: "column_pass ?E ?L (column_less desc c) ord is_last [] T p1" and m1: "mset p1 = mset p"
    by simp_all
  have l1: "length p1 = length p" using mset_eq_length[OF m1] .
  note D = column_pass_done[OF kr Je, folded kl, unfolded l1]
  have E': "(\<lambda>a b. ?E a b \<and> \<not> key_less input key a b \<and> \<not> key_less input key b a)
      = keys_equal input (ds @ [key])"
    by (intro ext) (simp add: keys_equal_snoc)
  have L': "(\<lambda>a b. ?L a b \<or> (?E a b \<and> key_less input key a b)) = row_less (ds @ [key]) input"
    by (intro ext) (simp add: row_less_snoc)
  have app: "ds @ key # ks = (ds @ [key]) @ ks" by simp
  show ?case
  proof (cases "T = []")
    case True
    then have r: "sort_by_columns (key # ks) input R p = p1" using res by simp
    have S: "\<forall>i j. i < j \<and> j < length p \<longrightarrow> \<not> row_less (ds @ key # ks) input (p1 ! j) (p1 ! i)"
    proof (intro allI impI)
      fix i j assume a: "i < j \<and> j < length p"
      have 1: "\<not> row_less (ds @ [key]) input (p1 ! j) (p1 ! i)"
        using D(1) a by (simp add: row_less_snoc)
      have 2: "\<not> (keys_equal input (ds @ [key]) (p1 ! j) (p1 ! i) \<and> row_less ks input (p1 ! j) (p1 ! i))"
      proof (cases is_last)
        case True
        then show ?thesis by (simp add: is_last_def)
      next
        case False
        from D(3)[OF False \<open>T = []\<close>] a
        have "\<not> keys_equal input (ds @ [key]) (p1 ! i) (p1 ! j)"
          by (simp add: keys_equal_snoc)
        then show ?thesis using keys_equal_sym by blast
      qed
      have "row_less ((ds @ [key]) @ ks) input (p1 ! j) (p1 ! i) =
          (row_less (ds @ [key]) input (p1 ! j) (p1 ! i) \<or>
           (keys_equal input (ds @ [key]) (p1 ! j) (p1 ! i) \<and> row_less ks input (p1 ! j) (p1 ! i)))"
        by (rule row_less_append)
      then show "\<not> row_less (ds @ key # ks) input (p1 ! j) (p1 ! i)"
        unfolding app using 1 2 by blast
    qed
    have O: "\<forall>i j. i < j \<and> j < length p \<and> keys_equal input (ds @ key # ks) (p1 ! i) (p1 ! j)
        \<longrightarrow> ord (p1 ! i) (p1 ! j)"
    proof (intro allI impI)
      fix i j assume a: "i < j \<and> j < length p \<and> keys_equal input (ds @ key # ks) (p1 ! i) (p1 ! j)"
      then have "keys_equal input (ds @ [key]) (p1 ! i) (p1 ! j)"
        unfolding app using keys_equal_append[of input "ds @ [key]" ks] by blast
      then show "ord (p1 ! i) (p1 ! j)" using D(2) a by (simp add: keys_equal_snoc)
    qed
    show ?thesis unfolding r using m1 S O by blast
  next
    case False
    then have r: "sort_by_columns (key # ks) input R p = sort_by_columns ks input T p1"
      using res by simp
    have nl: "\<not> is_last" using column_pass_D(6)[OF Je] False by blast
    have "sort_invariant (keys_equal input (ds @ [key])) (row_less (ds @ [key]) input) ord T p1"
      using D(4)[OF nl] unfolding E' L' .
    from Cons.IH[OF this] show ?thesis unfolding r app l1 using m1 by simp
  qed
qed

lemma SortPermutation_result:
  assumes len: "length p0 = row_count input"
    and o: "\<forall>i j. i < j \<and> j < length p0 \<longrightarrow> ord (p0 ! i) (p0 ! j)"
  shows "\<exists>p. SortPermutation sort_order input p0 = Some p \<and> mset p = mset p0 \<and>
           sorted_wrt (\<lambda>a b. \<not> row_less sort_order input b a) p \<and>
           (\<forall>i j. i < j \<and> j < length p \<and> keys_equal input sort_order (p ! i) (p ! j)
               \<longrightarrow> ord (p ! i) (p ! j))"
proof -
  let ?R = "[\<lparr>range_from = 0, range_to = row_count input\<rparr>]"
  define p where "p = sort_by_columns sort_order input ?R p0"
  have sp: "SortPermutation sort_order input p0 = Some p"
    using len by (simp add: SortPermutation_def p_def)
  have inv: "sort_invariant (keys_equal input []) (row_less [] input) ord ?R p0"
    unfolding sort_invariant_def ranges_ordered_def using len o by (simp add: keys_equal_Nil)
  from sort_by_columns_sorted[OF inv, of sort_order, folded p_def]
  have m: "mset p = mset p0"
    and s: "\<forall>i j. i < j \<and> j < length p0 \<longrightarrow> \<not> row_less sort_order input (p ! j) (p ! i)"
    and st: "\<forall>i j. i < j \<and> j < length p0 \<and> keys_equal input sort_order (p ! i) (p ! j)
        \<longrightarrow> ord (p ! i) (p ! j)"
    by simp_all
  have l: "length p = length p0" using mset_eq_length[OF m] .
  have "sorted_wrt (\<lambda>a b. \<not> row_less sort_order input b a) p"
    unfolding sorted_wrt_iff_nth_less using s l by simp
  with sp m st l show ?thesis by simp
qed

text \<open>
  C1. For every well-formed input view and every bound sort order, SortPermutation,
  started on the identity permutation of the view's rows, returns a permutation of the
  row indices: the view read through it has exactly the rows of the view, none added,
  dropped or duplicated. The result is non-decreasing under the sort order: no later
  row is smaller than an earlier one when the keys are compared in their order of
  precedence, each in its direction, with NULL below every value.
\<close>

theorem SortPermutation_sorted_permutation:
  assumes "view_ok input" and "sort_order_ok sort_order input"
  shows "\<exists>p. SortPermutation sort_order input (Permutation_new (row_count input)) = Some p \<and>
           mset p = mset [0..<row_count input] \<and>
           mset (apply_permutation input p) = mset (view_rows input) \<and>
           sorted_wrt (\<lambda>a b. \<not> row_less sort_order input b a) p"
proof -
  have "length (Permutation_new (row_count input)) = row_count input"
    by (simp add: Permutation_new_def)
  from SortPermutation_result[OF this, of "\<lambda>a b. True" sort_order]
  obtain p where p: "SortPermutation sort_order input (Permutation_new (row_count input)) = Some p"
    "mset p = mset (Permutation_new (row_count input))"
    "sorted_wrt (\<lambda>a b. \<not> row_less sort_order input b a) p" by auto
  have m: "mset p = mset [0..<row_count input]" using p(2) by (simp add: Permutation_new_def)
  have "mset (map (row_of input) p) = mset (map (row_of input) [0..<row_count input])"
    using m by (metis mset_map)
  then have "mset (apply_permutation input p) = mset (view_rows input)"
    by (simp add: apply_permutation_def view_rows_def)
  with p m show ?thesis by blast
qed

theorem SortPermutation_sorted_permutation_witness:
  "view_ok example_view \<and> sort_order_ok [(0, ASCENDING), (1, ASCENDING)] example_view \<and>
   SortPermutation [(0, ASCENDING), (1, ASCENDING)] example_view (Permutation_new 7)
     = Some [2, 4, 5, 6, 1, 3, 0] \<and>
   mset [2, 4, 5, 6, 1, 3, 0] = mset [0..<7::nat] \<and>
   sorted_wrt (\<lambda>a b. \<not> row_less [(0, ASCENDING), (1, ASCENDING)] example_view b a)
     [2, 4, 5, 6, 1, 3, 0]"
proof -
  have v: "view_ok example_view" by (simp add: view_ok_def example_view_def)
  have s: "sort_order_ok [(0, ASCENDING), (1, ASCENDING)] example_view"
    by (simp add: sort_order_ok_def example_view_def)
  have n: "row_count example_view = 7" by (simp add: example_view_def)
  have e: "SortPermutation [(0, ASCENDING), (1, ASCENDING)] example_view (Permutation_new 7)
     = Some [2, 4, 5, 6, 1, 3, 0]" by code_simp
  from SortPermutation_sorted_permutation[OF v s] e
  show ?thesis using v s by (simp add: n)
qed

subsection \<open>Rows with equal keys\<close>

lemma swo_lexicographic:
  assumes r: "strict_weak_order r" and s: "strict_weak_order s"
  shows "strict_weak_order (\<lambda>x y. r x y \<or> (\<not> r y x \<and> s x y))"
proof -
  have ra: "\<And>a b. r a b \<Longrightarrow> \<not> r b a" using r unfolding strict_weak_order_def by blast
  have rn: "\<And>a b c. \<not> r a b \<Longrightarrow> \<not> r b c \<Longrightarrow> \<not> r a c" using r unfolding strict_weak_order_def by blast
  have sa: "\<And>a b. s a b \<Longrightarrow> \<not> s b a" using s unfolding strict_weak_order_def by blast
  have sn: "\<And>a b c. \<not> s a b \<Longrightarrow> \<not> s b c \<Longrightarrow> \<not> s a c" using s unfolding strict_weak_order_def by blast
  show ?thesis
    unfolding strict_weak_order_def
  proof (intro conjI allI impI)
    fix a b assume "r a b \<or> (\<not> r b a \<and> s a b)"
    then show "\<not> (r b a \<or> (\<not> r a b \<and> s b a))" using ra sa by blast
  next
    fix a b c
    assume 1: "\<not> (r a b \<or> (\<not> r b a \<and> s a b))" and 2: "\<not> (r b c \<or> (\<not> r c b \<and> s b c))"
    show "\<not> (r a c \<or> (\<not> r c a \<and> s a c))"
    proof
      assume h: "r a c \<or> (\<not> r c a \<and> s a c)"
      from 1 have nab: "\<not> r a b" by blast
      from 2 have nbc: "\<not> r b c" by blast
      from rn[OF nab nbc] have nac: "\<not> r a c" .
      with h have nca: "\<not> r c a" and sac: "s a c" by blast+
      have nba: "\<not> r b a"
      proof
        assume "r b a"
        then have "r b c \<or> r c a" using rn by blast
        with nbc nca show False by blast
      qed
      have ncb: "\<not> r c b"
      proof
        assume "r c b"
        then have "r c a \<or> r a b" using rn by blast
        with nca nab show False by blast
      qed
      from 1 nba have "\<not> s a b" by blast
      moreover from 2 ncb have "\<not> s b c" by blast
      ultimately have "\<not> s a c" by (rule sn)
      with sac show False by blast
    qed
  qed
qed





text \<open>
  C3. Sorting a working range by a nullable key column leaves all NULL rows of the
  range before all other rows when the key is ascending, and after them when it is
  descending. The range comes out non-decreasing in the key's direction under the order
  of cells in which NULLs are equal to each other and smaller than every value.
\<close>

theorem SortRange_null_placement:
  assumes nul: "is_null c = Some bits"
    and b: "lo \<le> hi" "hi \<le> length p"
    and wf: "\<forall>x \<in> set p. x < length bits \<and> x < length (data c)"
    and r: "SortRange descending False (data c) bits \<lparr>range_from = lo, range_to = hi\<rparr> T p is_last
              = (T', p')"
  shows "mset p' = mset p \<and>
     (\<forall>i j. lo \<le> i \<and> i < hi \<and> lo \<le> j \<and> j < hi \<and> bits ! (p' ! i) \<and> \<not> bits ! (p' ! j)
        \<longrightarrow> (if descending then j < i else i < j)) \<and>
     (\<forall>i j. lo \<le> i \<and> i < j \<and> j < hi \<longrightarrow> \<not> column_less descending c (p' ! j) (p' ! i)) \<and>
     (\<forall>a b. bits ! a \<and> bits ! b
        \<longrightarrow> \<not> cell_less (cell c a) (cell c b) \<and> \<not> cell_less (cell c b) (cell c a)) \<and>
     (\<forall>a b. bits ! a \<and> \<not> bits ! b \<longrightarrow> cell_less (cell c a) (cell c b))"
proof -
  have col: "case is_null c of None \<Rightarrow> False | Some bs \<Rightarrow> \<not> False \<and> bits = bs"
    using nul by simp
  from SortRange_sorted[OF b col r, of "\<lambda>a b. True"]
  have re: "rearranged lo hi p p'"
    and s: "\<forall>i j. lo \<le> i \<and> i < j \<and> j < hi \<longrightarrow> \<not> column_less descending c (p' ! j) (p' ! i)"
    unfolding range_sorted_def by simp_all
  have m: "mset p' = mset p" using re by (rule rearranged_mset)
  have pl: "\<forall>i j. lo \<le> i \<and> i < hi \<and> lo \<le> j \<and> j < hi \<and> bits ! (p' ! i) \<and> \<not> bits ! (p' ! j)
        \<longrightarrow> (if descending then j < i else i < j)"
  proof (intro allI impI)
    fix i j
    assume a: "lo \<le> i \<and> i < hi \<and> lo \<le> j \<and> j < hi \<and> bits ! (p' ! i) \<and> \<not> bits ! (p' ! j)"
    then have ne: "i \<noteq> j" by auto
    show "if descending then j < i else i < j"
    proof (cases descending)
      case True
      have "\<not> i < j"
      proof
        assume "i < j"
        then have "\<not> column_less descending c (p' ! j) (p' ! i)" using s a by simp
        moreover have "column_less True c (p' ! j) (p' ! i)"
          using column_less_null_last[OF nul] a by simp
        ultimately show False using True by simp
      qed
      with ne True show ?thesis by simp
    next
      case False
      have "\<not> j < i"
      proof
        assume "j < i"
        then have "\<not> column_less descending c (p' ! i) (p' ! j)" using s a by simp
        moreover have "column_less False c (p' ! i) (p' ! j)"
          using column_less_null_first[OF nul] a by simp
        ultimately show False using False by simp
      qed
      with ne False show ?thesis by simp
    qed
  qed
  have e: "\<forall>a b. bits ! a \<and> bits ! b
        \<longrightarrow> \<not> cell_less (cell c a) (cell c b) \<and> \<not> cell_less (cell c b) (cell c a)"
    using nul by (simp add: cell_def)
  have l: "\<forall>a b. bits ! a \<and> \<not> bits ! b \<longrightarrow> cell_less (cell c a) (cell c b)"
    using nul by (simp add: cell_def)
  from m pl s e l show ?thesis by blast
qed

theorem SortRange_null_placement_witness:
  "SortRange False False (data example_nullable_column) [False, True, False, True, False]
      \<lparr>range_from = 0, range_to = 5\<rparr> [] [0, 1, 2, 3, 4] True = ([], [1, 3, 4, 2, 0]) \<and>
   SortRange True False (data example_nullable_column) [False, True, False, True, False]
      \<lparr>range_from = 0, range_to = 5\<rparr> [] [0, 1, 2, 3, 4] True = ([], [0, 2, 4, 1, 3]) \<and>
   mset [1, 3, 4, 2, 0] = mset [0, 1, 2, 3, 4::nat] \<and>
   mset [0, 2, 4, 1, 3] = mset [0, 1, 2, 3, 4::nat] \<and>
   map (\<lambda>r. [False, True, False, True, False] ! r) [1, 3, 4, 2, 0]
     = [True, True, False, False, False] \<and>
   map (\<lambda>r. [False, True, False, True, False] ! r) [0, 2, 4, 1, 3]
     = [False, False, False, True, True]"
proof -
  let ?bits = "[False, True, False, True, False]"
  have n: "is_null example_nullable_column = Some ?bits"
    by (simp add: example_nullable_column_def)
  have b: "(0::nat) \<le> 5" "5 \<le> length [0, 1, 2, 3, 4::nat]" by simp_all
  have wf: "\<forall>x \<in> set [0, 1, 2, 3, 4::nat]. x < length ?bits \<and> x < length (data example_nullable_column)"
    by (simp add: example_nullable_column_def)
  have r1: "SortRange False False (data example_nullable_column) ?bits
      \<lparr>range_from = 0, range_to = 5\<rparr> [] [0, 1, 2, 3, 4] True = ([], [1, 3, 4, 2, 0])"
    by code_simp
  have r2: "SortRange True False (data example_nullable_column) ?bits
      \<lparr>range_from = 0, range_to = 5\<rparr> [] [0, 1, 2, 3, 4] True = ([], [0, 2, 4, 1, 3])"
    by code_simp
  have m1: "mset [1, 3, 4, 2, 0] = mset [0, 1, 2, 3, 4::nat]"
    using SortRange_null_placement[OF n b wf r1] by (rule conjunct1)
  have m2: "mset [0, 2, 4, 1, 3] = mset [0, 1, 2, 3, 4::nat]"
    using SortRange_null_placement[OF n b wf r2] by (rule conjunct1)
  have f1: "map (\<lambda>r. ?bits ! r) [1, 3, 4, 2, 0] = [True, True, False, False, False]" by simp
  have f2: "map (\<lambda>r. ?bits ! r) [0, 2, 4, 1, 3] = [False, False, False, True, True]" by simp
  show ?thesis by (intro conjI r1 r2 m1 m2 f1 f2)
qed

section \<open>Failures of the merger and of the buffering sorter\<close>

text \<open>
  BasicMerger::AddSorted fails with ERROR_TEMP_FILE_CREATION_ERROR when the temporary
  file cannot be created. When the file exists and the result of WriteAll is a failure
  with the return code WAITING_ON_BARRIER, it fails with ERROR_NOT_IMPLEMENTED.
\<close>

lemma AddSorted_failures:
  "AddSorted False WriteAll file_sink_finalize_result merger cursor
     = Inl ERROR_TEMP_FILE_CREATION_ERROR \<and>
   (WriteAll cursor = Inl WAITING_ON_BARRIER \<longrightarrow>
      AddSorted True WriteAll file_sink_finalize_result merger cursor = Inl ERROR_NOT_IMPLEMENTED)"
  by (simp add: AddSorted_def)

lemma AddSorted_failures_example:
  "AddSorted False (\<lambda>c. Inr c) (Inr ()) \<lparr>file_buffers_m = []\<rparr> [1::nat]
     = Inl ERROR_TEMP_FILE_CREATION_ERROR \<and>
   (\<lambda>c::nat list. (Inl WAITING_ON_BARRIER :: ReturnCode + nat list)) [1] = Inl WAITING_ON_BARRIER \<and>
   AddSorted True (\<lambda>c. (Inl WAITING_ON_BARRIER :: ReturnCode + nat list)) (Inr ())
       \<lparr>file_buffers_m = []\<rparr> [1::nat]
     = (Inl ERROR_NOT_IMPLEMENTED :: ReturnCode + nat BasicMerger) \<and>
   AddSorted True (\<lambda>c. Inr c) (Inr ()) \<lparr>file_buffers_m = []\<rparr> [1::nat]
     = Inr \<lparr>file_buffers_m = [[1]]\<rparr>"
proof -
  have a: "AddSorted False (\<lambda>c. Inr c) (Inr ()) \<lparr>file_buffers_m = []\<rparr> [1::nat]
     = Inl ERROR_TEMP_FILE_CREATION_ERROR"
    using AddSorted_failures[of "\<lambda>c. Inr c" "Inr ()" "\<lparr>file_buffers_m = []\<rparr>" "[1::nat]"]
    by (rule conjunct1)
  have b: "AddSorted True (\<lambda>c. (Inl WAITING_ON_BARRIER :: ReturnCode + nat list)) (Inr ())
       \<lparr>file_buffers_m = []\<rparr> [1::nat]
     = (Inl ERROR_NOT_IMPLEMENTED :: ReturnCode + nat BasicMerger)"
    using AddSorted_failures[of "\<lambda>c. (Inl WAITING_ON_BARRIER :: ReturnCode + nat list)" "Inr ()"
        "\<lparr>file_buffers_m = []\<rparr>" "[1::nat]"]
    by simp
  have c: "AddSorted True (\<lambda>c. Inr c) (Inr ()) \<lparr>file_buffers_m = []\<rparr> [1::nat]
     = Inr \<lparr>file_buffers_m = [[1]]\<rparr>"
    by (simp add: AddSorted_def)
  show ?thesis using a b c by simp
qed

text \<open>
  C6. A source cursor that reports WAITING_ON_BARRIER after its first row, while the
  merger writes the run to the temporary file. The Writer reports the barrier the way
  SortCursor::ProcessData reads it: \<open>is_waiting_on_barrier()\<close> holds and the result
  of WriteAll is not a failure. AddSorted tests only for a failure of WriteAll, so it
  does not fail with ERROR_NOT_IMPLEMENTED: it succeeds and keeps the file with the
  one row as a run of the merger.
\<close>

theorem AddSorted_barrier_unnoticed:
  "is_waiting_on_barrier (WriteAll_until_barrier 1 [1, 2, 3::nat]) \<and>
   AddSorted True (\<lambda>cursor. write_all_result (WriteAll_until_barrier 1 cursor)) (Inr ())
       \<lparr>file_buffers_m = []\<rparr> [1, 2, 3::nat]
     = Inr \<lparr>file_buffers_m = [[1]]\<rparr>"
  by (simp add: AddSorted_def WriteAll_until_barrier_def)

lemma row_count_Table_Clear: "row_count (Table_Clear t) = 0"
  by (simp add: Table_Clear_def view_take_def)

text \<open>
  C5, as amended. When the write to the materialization table copies no rows,
  BufferingSorter::Write flushes: a table that holds rows is sorted by SortPermutation
  and spilled as one run, and cleared (a failure of the spill is the result of Write);
  for an empty table nothing is spilled. The write is then retried exactly once, on
  the empty table: if it copies rows they are recorded, and if it still copies none,
  Write fails with ERROR_MEMORY_EXCEEDED and returns no state, so no row of the view is
  recorded.
\<close>

theorem BufferingSorter_Write_flush_retry:
  assumes first: "TableSink_Write io (memory_buffer_m s) dat = Inr 0"
  shows "case Flush io s of
           Inl e \<Rightarrow> BufferingSorter_Write io s dat = Inl e
         | Inr s1 \<Rightarrow>
             row_count (memory_buffer_m s1) = 0 \<and>
             (if row_count (memory_buffer_m s) > 0
              then \<exists>p sorted_rows run.
                     SortPermutation (sort_order_m (unbuffered_sorter_m s)) (memory_buffer_m s)
                        (Permutation_new (row_count (memory_buffer_m s))) = Some p \<and>
                     ScanViewWithSelection io (memory_buffer_m s) p = Inr sorted_rows \<and>
                     Writer_WriteAll io sorted_rows = Inr run \<and>
                     file_buffers_m (merger_m (unbuffered_sorter_m s1))
                       = file_buffers_m (merger_m (unbuffered_sorter_m s)) @ [run]
              else s1 = s) \<and>
             BufferingSorter_Write io s dat =
               (case TableSink_Write io (memory_buffer_m s1) dat of
                  Inl e \<Rightarrow> Inl e
                | Inr written \<Rightarrow>
                    if written > 0
                    then Inr (written,
                              s1\<lparr>memory_buffer_m := Table_append (memory_buffer_m s1) dat written\<rparr>)
                    else Inl ERROR_MEMORY_EXCEEDED)"
proof (cases "Flush io s")
  case (Inl e)
  then show ?thesis using first by (simp add: BufferingSorter_Write_def)
next
  case (Inr s1)
  have rc: "row_count (memory_buffer_m s1) = 0"
    using Inr by (auto simp: Flush_def row_count_Table_Clear split: if_splits sum.splits prod.splits)
  have w: "BufferingSorter_Write io s dat =
               (case TableSink_Write io (memory_buffer_m s1) dat of
                  Inl e \<Rightarrow> Inl e
                | Inr written \<Rightarrow>
                    if written > 0
                    then Inr (written,
                              s1\<lparr>memory_buffer_m := Table_append (memory_buffer_m s1) dat written\<rparr>)
                    else Inl ERROR_MEMORY_EXCEEDED)"
    using first Inr rc by (simp add: BufferingSorter_Write_def)
  have sp: "if row_count (memory_buffer_m s) > 0
              then \<exists>p sorted_rows run.
                     SortPermutation (sort_order_m (unbuffered_sorter_m s)) (memory_buffer_m s)
                        (Permutation_new (row_count (memory_buffer_m s))) = Some p \<and>
                     ScanViewWithSelection io (memory_buffer_m s) p = Inr sorted_rows \<and>
                     Writer_WriteAll io sorted_rows = Inr run \<and>
                     file_buffers_m (merger_m (unbuffered_sorter_m s1))
                       = file_buffers_m (merger_m (unbuffered_sorter_m s)) @ [run]
              else s1 = s"
  proof (cases "row_count (memory_buffer_m s) > 0")
    case False
    then show ?thesis using Inr by (simp add: Flush_def)
  next
    case True
    with Inr obtain u where u: "UnbufferedSorter_Write io (unbuffered_sorter_m s) (memory_buffer_m s)
        = Inr (row_count (memory_buffer_m s), u)"
      and s1: "s1 = s\<lparr>memory_buffer_m := Table_Clear (memory_buffer_m s), unbuffered_sorter_m := u\<rparr>"
      by (auto simp: Flush_def split: sum.splits prod.splits if_splits)
    from u obtain sorted_rows m where sv: "SortView io (sort_order_m (unbuffered_sorter_m s))
        (memory_buffer_m s) = Inr sorted_rows"
      and ad: "AddSorted (TempFile_Create io) (Writer_WriteAll io) (Sink_Finalize io)
          (merger_m (unbuffered_sorter_m s)) sorted_rows = Inr m"
      and um: "u = (unbuffered_sorter_m s)\<lparr>merger_m := m\<rparr>"
      by (auto simp: UnbufferedSorter_Write_def split: sum.splits)
    from sv obtain p where p: "SortPermutation (sort_order_m (unbuffered_sorter_m s)) (memory_buffer_m s)
        (Permutation_new (row_count (memory_buffer_m s))) = Some p"
      "ScanViewWithSelection io (memory_buffer_m s) p = Inr sorted_rows"
      by (auto simp: SortView_def split: option.splits)
    from ad obtain run where r: "Writer_WriteAll io sorted_rows = Inr run"
      "m = (merger_m (unbuffered_sorter_m s))\<lparr>file_buffers_m :=
          file_buffers_m (merger_m (unbuffered_sorter_m s)) @ [run]\<rparr>"
      by (auto simp: AddSorted_def split: if_splits sum.splits)
    have "file_buffers_m (merger_m (unbuffered_sorter_m s1))
        = file_buffers_m (merger_m (unbuffered_sorter_m s)) @ [run]"
      using s1 um r(2) by simp
    with True p r(1) show ?thesis by auto
  qed
  show ?thesis using Inr rc sp w by simp
qed

theorem BufferingSorter_Write_flush_retry_witness:
  "TableSink_Write (spill_io (room_for 2)) (memory_buffer_m (example_sorter [3, 1] []))
       (one_column_view [2]) = Inr 0 \<and>
   Flush (spill_io (room_for 2)) (example_sorter [3, 1] [])
     = Inr (example_sorter [] [[[Some 1], [Some 3]]]) \<and>
   BufferingSorter_Write (spill_io (room_for 2)) (example_sorter [3, 1] []) (one_column_view [2])
     = Inr (1, example_sorter [2] [[[Some 1], [Some 3]]]) \<and>
   BufferingSorter_Write (spill_io (room_for 0)) (example_sorter [3, 1] []) (one_column_view [2])
     = Inl ERROR_MEMORY_EXCEEDED"
proof -
  let ?io = "spill_io (room_for 2)" and ?s = "example_sorter [3, 1] []"
  let ?d = "one_column_view [2]"
  have f: "TableSink_Write ?io (memory_buffer_m ?s) ?d = Inr 0"
    by (simp add: spill_io_def room_for_def example_sorter_def one_column_view_def)
  have fl: "Flush ?io ?s = Inr (example_sorter [] [[[Some 1], [Some 3]]])"
    by code_simp
  have r: "(case TableSink_Write ?io (memory_buffer_m (example_sorter [] [[[Some 1], [Some 3]]])) ?d of
              Inl e \<Rightarrow> Inl e
            | Inr written \<Rightarrow>
                if written > 0
                then Inr (written,
                          (example_sorter [] [[[Some 1], [Some 3]]])\<lparr>memory_buffer_m :=
                             Table_append (memory_buffer_m (example_sorter [] [[[Some 1], [Some 3]]]))
                               ?d written\<rparr>)
                else Inl ERROR_MEMORY_EXCEEDED)
           = Inr (1, example_sorter [2] [[[Some 1], [Some 3]]])"
    by code_simp
  have w: "BufferingSorter_Write ?io ?s ?d = Inr (1, example_sorter [2] [[[Some 1], [Some 3]]])"
    using BufferingSorter_Write_flush_retry[OF f] r by (simp add: fl)
  have f0: "TableSink_Write (spill_io (room_for 0)) (memory_buffer_m ?s) ?d = Inr 0"
    by (simp add: spill_io_def room_for_def)
  have fl0: "Flush (spill_io (room_for 0)) ?s = Inr (example_sorter [] [[[Some 1], [Some 3]]])"
    by code_simp
  have r0: "TableSink_Write (spill_io (room_for 0))
      (memory_buffer_m (example_sorter [] [[[Some 1], [Some 3]]])) ?d = Inr 0"
    by (simp add: spill_io_def room_for_def)
  have w0: "BufferingSorter_Write (spill_io (room_for 0)) ?s ?d = Inl ERROR_MEMORY_EXCEEDED"
    using BufferingSorter_Write_flush_retry[OF f0] by (simp add: fl0 r0)
  show ?thesis by (intro conjI f fl w w0)
qed

text \<open>
  The claim as it was stated fails on an empty table: the write copies no rows, the
  flush leaves the sorter as it was, without any run, and Write fails.
\<close>

theorem BufferingSorter_Write_empty_table_counterexample:
  "TableSink_Write (spill_io (room_for 0)) (memory_buffer_m (example_sorter [] []))
       (one_column_view [2]) = Inr 0 \<and>
   Flush (spill_io (room_for 0)) (example_sorter [] []) = Inr (example_sorter [] []) \<and>
   file_buffers_m (merger_m (unbuffered_sorter_m (example_sorter [] []))) = [] \<and>
   BufferingSorter_Write (spill_io (room_for 0)) (example_sorter [] []) (one_column_view [2])
     = Inl ERROR_MEMORY_EXCEEDED"
proof -
  have a: "TableSink_Write (spill_io (room_for 0)) (memory_buffer_m (example_sorter [] []))
       (one_column_view [2]) = Inr 0"
    by (simp add: spill_io_def room_for_def)
  have b: "Flush (spill_io (room_for 0)) (example_sorter [] []) = Inr (example_sorter [] [])"
    by (simp add: Flush_def example_sorter_def one_column_view_def)
  have c: "file_buffers_m (merger_m (unbuffered_sorter_m (example_sorter [] []))) = []"
    by (simp add: example_sorter_def)
  have d: "BufferingSorter_Write (spill_io (room_for 0)) (example_sorter [] []) (one_column_view [2])
     = Inl ERROR_MEMORY_EXCEEDED"
    by code_simp
  show ?thesis by (intro conjI a b c d)
qed


section \<open>The default result projector of BoundSort\<close>

lemma fold_Add:
  "fold (\<lambda>position projector. Add projector position) xs projector =
     projector\<lparr>projected_positions := projected_positions projector @ xs\<rparr>"
  by (induction xs arbitrary: projector) (simp_all add: Add_def)

lemma ProjectAllAttributes_Bind_eq:
  "ProjectAllAttributes_Bind schema =
     \<lparr>source_schema = schema, projected_positions = [0..<length schema]\<rparr>"
  by (simp add: ProjectAllAttributes_Bind_def fold_Add BoundSingleSourceProjector_new_def)

text \<open>
  C10. Called with a null result projector, BoundSort takes the projector of all
  attributes of the child's schema: the schema of the sort cursor is the schema of
  the child cursor, and the projector passes every column of a row through, in place.
\<close>

theorem BoundSort_default_projector:
  "\<exists>cursor. BoundSort bound_sort_order None memory_quota temporary_directory_prefix child
       = Inr cursor \<and>
     sort_cursor_schema cursor = cursor_schema child \<and>
     result_projector_m cursor = ProjectAllAttributes_Bind (cursor_schema child) \<and>
     (\<forall>r :: 'v list. length r = length (cursor_schema child)
        \<longrightarrow> project_row (result_projector_m cursor) r = r)"
proof -
  let ?p = "ProjectAllAttributes_Bind (cursor_schema child)"
  have s: "result_schema ?p = cursor_schema child"
    by (simp add: ProjectAllAttributes_Bind_eq result_schema_def map_nth)
  have r: "\<forall>r :: 'v list. length r = length (cursor_schema child) \<longrightarrow> project_row ?p r = r"
  proof (intro allI impI)
    fix r :: "'v list"
    assume l: "length r = length (cursor_schema child)"
    have "project_row ?p r = map (\<lambda>position. r ! position) [0..<length r]"
      by (simp add: ProjectAllAttributes_Bind_eq project_row_def l)
    also have "\<dots> = r" by (rule map_nth)
    finally show "project_row ?p r = r" .
  qed
  show ?thesis using s r by (simp add: BoundSort_def)
qed

theorem BoundSort_default_projector_witness:
  "sort_cursor_schema
     (projr (BoundSort [(0, ASCENDING)] None 1000 '''' \<lparr>cursor_schema = example_schema, cursor_body = ()\<rparr>))
     = example_schema \<and>
   project_row
     (result_projector_m
        (projr (BoundSort [(0, ASCENDING)] None 1000 '''' \<lparr>cursor_schema = example_schema, cursor_body = ()\<rparr>)))
     [''x'', ''y''] = [''x'', ''y'']"
proof -
  let ?child = "\<lparr>cursor_schema = example_schema, cursor_body = ()\<rparr>"
  from BoundSort_default_projector[of "[(0, ASCENDING)]" 1000 "''''" ?child, where ?'v = string]
  obtain cursor where c: "BoundSort [(0, ASCENDING)] None 1000 '''' ?child = Inr cursor"
    "sort_cursor_schema cursor = cursor_schema ?child"
    "\<forall>r :: string list. length r = length (cursor_schema ?child)
        \<longrightarrow> project_row (result_projector_m cursor) r = r"
    by blast
  have l: "length [''x'', ''y''] = length (cursor_schema ?child)"
    by (simp add: example_schema_def)
  have "project_row (result_projector_m cursor) [''x'', ''y''] = [''x'', ''y'']"
    using c(3) l by blast
  with c(1,2) show ?thesis by simp
qed

section \<open>Concat: row count, nullability and the bytes of the result\<close>


lemma BoundConcat_Inr:
  assumes "BoundConcat SelectivityIsGreaterThan CreateToString allocate max_row_count args = Inr e"
  shows "\<exists>stringified_args destination.
           stringify_arguments CreateToString args = Inr stringified_args \<and>
           allocate max_row_count = Some destination \<and>
           result_schema_m e = CreateSchema (concat_name stringified_args) STRING
                                 (concat_nullability stringified_args) \<and>
           DoEvaluate e = BoundConcatExpression_DoEvaluate SelectivityIsGreaterThan destination
                            stringified_args"
  using assms by (auto simp: BoundConcat_def split: sum.splits option.splits)

lemma stringify_arguments_STRING:
  assumes "stringify_arguments CreateToString args = Inr stringified_args"
    and "\<forall>arg \<in> set args. GetExpressionType arg = STRING"
  shows "stringified_args = args"
  using assms
proof (induction args arbitrary: stringified_args)
  case Nil
  then show ?case by simp
next
  case (Cons child args)
  then show ?case
    by (auto simp: BoundToString_def split: option.splits sum.splits)
qed

lemma fold_nullability:
  "fold (\<lambda>arg nullability.
           if is_nullable (result_schema_m arg ! 0) then NULLABLE else nullability) args start
     = NULLABLE
   \<longleftrightarrow> start = NULLABLE \<or> (\<exists>arg \<in> set args. is_nullable (result_schema_m arg ! 0))"
  by (induction args arbitrary: start) auto

lemma concat_nullability_iff:
  "concat_nullability args = NULLABLE
     \<longleftrightarrow> (\<exists>arg \<in> set args. is_nullable (result_schema_m arg ! 0))"
  by (simp add: concat_nullability_def fold_nullability)

lemma BoundConcat_nullability:
  assumes "BoundConcat SelectivityIsGreaterThan CreateToString allocate max_row_count args = Inr e"
    and "\<forall>arg \<in> set args. GetExpressionType arg = STRING"
  shows "is_nullable (result_schema_m e ! 0)
           \<longleftrightarrow> (\<exists>arg \<in> set args. is_nullable (result_schema_m arg ! 0))"
proof -
  from BoundConcat_Inr[OF assms(1)] obtain stringified_args where
    s: "stringify_arguments CreateToString args = Inr stringified_args" and
    r: "result_schema_m e = CreateSchema (concat_name stringified_args) STRING
                              (concat_nullability stringified_args)"
    by blast
  have "stringified_args = args" by (rule stringify_arguments_STRING[OF s assms(2)])
  with r show ?thesis by (simp add: CreateSchema_def concat_nullability_iff)
qed

lemma strncpy_without_NUL:
  assumes "CHR 0x00 \<notin> set source"
  shows "strncpy source (length source) = source"
proof -
  have t: "takeWhile (\<lambda>c. c \<noteq> CHR 0x00) source = source"
    using assms by (intro takeWhile_eq_all_conv[THEN iffD2]) auto
  show ?thesis by (simp add: strncpy_def Let_def t)
qed

lemma concatenate_row_without_NUL:
  assumes "\<forall>source \<in> set sources. CHR 0x00 \<notin> set (source ! i)"
  shows "concatenate_row sources i = concat (map (\<lambda>source. source ! i) sources)"
proof -
  have m: "map (\<lambda>source. strncpy (source ! i) (length (source ! i))) sources
             = map (\<lambda>source. source ! i) sources"
    using assms by (simp add: strncpy_without_NUL)
  have l: "length (concat (map (\<lambda>source. source ! i) sources))
             = sum_list (map (\<lambda>source. length (source ! i)) sources)"
    by (simp add: length_concat comp_def)
  show ?thesis unfolding concatenate_row_def Let_def m using l by simp
qed

lemma BoundConcatExpression_DoEvaluate_result:
  assumes "evaluate_arguments arguments input skip_vectors = (Inr results, skip_vector)"
    and "i < row_count input" and "\<not> skip_vector ! i"
    and "\<forall>result \<in> set results. CHR 0x00 \<notin> set (data (columns result ! 0) ! i)"
  shows "\<exists>result.
           BoundConcatExpression_DoEvaluate SelectivityIsGreaterThan destination arguments input
             skip_vectors = (Inr result, skip_vector) \<and>
           cell (columns result ! 0) i
             = Some (concat (map (\<lambda>result. data (columns result ! 0) ! i) results))"
proof -
  let ?sources = "map (\<lambda>result. data (columns result ! 0)) results"
  have "\<forall>source \<in> set ?sources. CHR 0x00 \<notin> set (source ! i)"
    using assms(4) by simp
  then have c: "concatenate_row ?sources i = concat (map (\<lambda>source. source ! i) ?sources)"
    by (rule concatenate_row_without_NUL)
  have c': "concatenate_row ?sources i
              = concat (map (\<lambda>result. data (columns result ! 0) ! i) results)"
    unfolding c by (simp add: comp_def)
  show ?thesis
    using assms(1,2,3) c'
    by (simp add: BoundConcatExpression_DoEvaluate_def Let_def cell_def)
qed

lemma BoundConcat_example:
  "view_rows (projr (Evaluate
      \<lparr>root_m = projr (BoundConcat SelectivityIsGreaterThan CreateToString allocate_rows 2
                  [BoundAttributeAt (string_schema [False, False]) 0,
                   BoundAttributeAt (string_schema [False, False]) 1])\<rparr>
      example_strings))
     = [[Some ''ax''], [Some ''by'']]"
  by (simp add: BoundConcat_def string_schema_def BoundAttributeAt_def
     CheckAttributeCount_def BoundToString_def GetExpressionType_def allocate_rows_def
     Evaluate_def BoundConcatExpression_DoEvaluate_def example_strings_def view_rows_def
     row_of_def cell_def concatenate_row_def strncpy_def upt_rec Let_def)

lemma BoundConcat_example_null:
  "view_rows (projr (Evaluate
      \<lparr>root_m = projr (BoundConcat SelectivityIsGreaterThan CreateToString allocate_rows 2
                  [BoundAttributeAt (string_schema [True, False]) 0,
                   BoundAttributeAt (string_schema [True, False]) 1])\<rparr>
      example_strings_null))
     = [[Some ''ax''], [None]]"
  by (simp add: BoundConcat_def string_schema_def BoundAttributeAt_def
     CheckAttributeCount_def BoundToString_def GetExpressionType_def allocate_rows_def
     Evaluate_def BoundConcatExpression_DoEvaluate_def example_strings_null_def view_rows_def
     row_of_def cell_def concatenate_row_def strncpy_def upt_rec Let_def)

text \<open>
  C8. Concat copies each argument string with \<open>strncpy\<close>, which stops at a NUL byte
  of the source and fills the rest with NUL bytes. For the arguments \<open>a NUL b\<close> and
  \<open>c\<close> the row of the result is \<open>a NUL NUL c\<close>, and the concatenation of the bytes of
  the arguments is \<open>a NUL b c\<close>. (For strings without a NUL byte the row is the
  concatenation, \<open>BoundConcatExpression_DoEvaluate_result\<close>, and the result is
  nullable exactly when an argument is, \<open>BoundConcat_nullability\<close>.)
\<close>

theorem BoundConcat_embedded_NUL:
  "view_rows (projr (Evaluate
      \<lparr>root_m = projr (BoundConcat SelectivityIsGreaterThan CreateToString allocate_rows 1
                  [BoundAttributeAt (string_schema [False, False]) 0,
                   BoundAttributeAt (string_schema [False, False]) 1])\<rparr>
      example_strings_NUL))
     = [[Some [CHR ''a'', CHR 0x00, CHR 0x00, CHR ''c'']]] \<and>
   concat (map the (row_of example_strings_NUL 0)) = [CHR ''a'', CHR 0x00, CHR ''b'', CHR ''c'']"
  by (simp add: BoundConcat_def string_schema_def BoundAttributeAt_def
     CheckAttributeCount_def BoundToString_def GetExpressionType_def allocate_rows_def
     Evaluate_def BoundConcatExpression_DoEvaluate_def example_strings_NUL_def view_rows_def
     row_of_def cell_def concatenate_row_def strncpy_def upt_rec Let_def)




section \<open>The external sort and the sort in memory\<close>

declare merge_union_all.simps [simp del]

subsection \<open>Merging sorted runs\<close>

lemma select_minimum_None:
  "select_minimum lt cs = None \<longleftrightarrow> (\<forall>c \<in> set cs. c = [])"
  by (induction cs) (auto split: option.splits)

lemma select_minimum_least:
  assumes swo: "strict_weak_order lt"
  shows "select_minimum lt cs = Some i \<Longrightarrow> j < length cs \<Longrightarrow> cs ! j \<noteq> []
           \<Longrightarrow> \<not> lt (hd (cs ! j)) (hd (cs ! i))"
proof (induction cs arbitrary: i j)
  case Nil
  then show ?case by simp
next
  case (Cons c cs)
  show ?case
  proof (cases "select_minimum lt cs")
    case None
    then have e: "\<forall>c \<in> set cs. c = []" by (simp add: select_minimum_None)
    from Cons.prems(1) None have i: "i = 0" by (simp split: if_splits)
    show ?thesis
    proof (cases j)
      case 0
      then show ?thesis using i swo_irrefl[OF swo] by simp
    next
      case (Suc j')
      with Cons.prems(2) have "cs ! j' \<in> set cs" by simp
      with e Cons.prems(3) Suc show ?thesis by simp
    qed
  next
    case (Some k)
    show ?thesis
    proof (cases "c = []")
      case True
      with Cons.prems(1) Some have i: "i = Suc k" by simp
      from Cons.prems(3) True obtain j' where j: "j = Suc j'" by (cases j) auto
      from Cons.IH[OF Some, of j'] Cons.prems(2,3) j i show ?thesis by simp
    next
      case False
      show ?thesis
      proof (cases "lt (hd (cs ! k)) (hd c)")
        case True
        with Cons.prems(1) Some False have i: "i = Suc k" by simp
        show ?thesis
        proof (cases j)
          case 0
          then show ?thesis using i True swo_asym[OF swo] by simp
        next
          case (Suc j')
          from Cons.IH[OF Some, of j'] Cons.prems(2,3) Suc i show ?thesis by simp
        qed
      next
        case nl: False
        with Cons.prems(1) Some False have i: "i = 0" by simp
        show ?thesis
        proof (cases j)
          case 0
          then show ?thesis using i swo_irrefl[OF swo] by simp
        next
          case (Suc j')
          from Cons.IH[OF Some, of j'] Cons.prems(2,3) Suc
          have "\<not> lt (hd (cs ! j')) (hd (cs ! k))" by simp
          from swo_negtrans[OF swo this nl] show ?thesis using Suc i by simp
        qed
      qed
    qed
  qed
qed

lemma mset_concat_update_tl:
  assumes "i < length cs" and "cs ! i \<noteq> []"
  shows "add_mset (hd (cs ! i)) (mset (concat (cs[i := tl (cs ! i)]))) = mset (concat cs)"
proof -
  have a: "cs = take i cs @ cs ! i # drop (Suc i) cs"
    using assms(1) by (simp add: id_take_nth_drop)
  have b: "cs[i := tl (cs ! i)] = take i cs @ tl (cs ! i) # drop (Suc i) cs"
    using assms(1) by (simp add: upd_conv_take_nth_drop)
  have c: "add_mset (hd (cs ! i)) (mset (tl (cs ! i))) = mset (cs ! i)"
    using assms(2) by (cases "cs ! i") simp_all
  have "mset (concat cs) = mset (concat (take i cs)) + mset (cs ! i)
          + mset (concat (drop (Suc i) cs))"
    by (subst a) simp
  moreover have "mset (concat (cs[i := tl (cs ! i)])) = mset (concat (take i cs))
          + mset (tl (cs ! i)) + mset (concat (drop (Suc i) cs))"
    by (subst b) simp
  ultimately show ?thesis by (simp add: c[symmetric])
qed

lemma mset_merge_union_all: "mset (merge_union_all lt cs) = mset (concat cs)"
proof (induction lt cs rule: merge_union_all.induct)
  case (1 lt cs)
  show ?case
  proof (cases "select_minimum lt cs")
    case None
    then have "\<forall>c \<in> set cs. c = []" by (simp add: select_minimum_None)
    then have "concat cs = []" by simp
    with None show ?thesis by (subst merge_union_all.simps) simp
  next
    case (Some i)
    from select_minimum_Some[OF Some] have i: "i < length cs" "cs ! i \<noteq> []" by simp_all
    have "mset (merge_union_all lt cs)
            = add_mset (hd (cs ! i)) (mset (merge_union_all lt (cs[i := tl (cs ! i)])))"
      using Some by (subst merge_union_all.simps) simp
    also have "\<dots> = add_mset (hd (cs ! i)) (mset (concat (cs[i := tl (cs ! i)])))"
      using 1[OF Some] by simp
    also have "\<dots> = mset (concat cs)" by (rule mset_concat_update_tl[OF i])
    finally show ?thesis .
  qed
qed


lemma merge_rest_sorted:
  assumes swo: "strict_weak_order lt" and Some: "select_minimum lt cs = Some i"
    and srt: "\<forall>c \<in> set cs. sorted_wrt (\<lambda>x y. \<not> lt y x) c"
  shows "\<forall>c \<in> set (cs[i := tl (cs ! i)]). sorted_wrt (\<lambda>x y. \<not> lt y x) c"
proof
  from select_minimum_Some[OF Some] have i: "i < length cs" "cs ! i \<noteq> []" by simp_all
  have si: "sorted_wrt (\<lambda>x y. \<not> lt y x) (cs ! i)" using srt i(1) by simp
  obtain h t where ht: "cs ! i = h # t" using i(2) by (cases "cs ! i") auto
  have st: "sorted_wrt (\<lambda>x y. \<not> lt y x) (tl (cs ! i))"
    using si unfolding ht by simp
  fix c assume "c \<in> set (cs[i := tl (cs ! i)])"
  moreover have "set (cs[i := tl (cs ! i)]) \<subseteq> insert (tl (cs ! i)) (set cs)"
    by (rule set_update_subset_insert)
  ultimately have "c = tl (cs ! i) \<or> c \<in> set cs" by blast
  then show "sorted_wrt (\<lambda>x y. \<not> lt y x) c" using st srt by blast
qed

lemma merge_rest_bound:
  assumes swo: "strict_weak_order lt" and Some: "select_minimum lt cs = Some i"
    and srt: "\<forall>c \<in> set cs. sorted_wrt (\<lambda>x y. \<not> lt y x) c"
    and x: "x \<in> set (concat (cs[i := tl (cs ! i)]))"
  shows "\<not> lt x (hd (cs ! i))"
proof -
  from select_minimum_Some[OF Some] have i: "i < length cs" "cs ! i \<noteq> []" by simp_all
  let ?h = "hd (cs ! i)" and ?cs' = "cs[i := tl (cs ! i)]"
  have si: "sorted_wrt (\<lambda>x y. \<not> lt y x) (cs ! i)" using srt i(1) by simp
  obtain h t where ht: "cs ! i = h # t" using i(2) by (cases "cs ! i") auto
  have ge_tl: "\<forall>x \<in> set (tl (cs ! i)). \<not> lt x ?h"
    using si unfolding ht by simp
  from x obtain c where c: "c \<in> set ?cs'" "x \<in> set c" by auto
  from c(1) obtain j where j': "j < length ?cs'" "?cs' ! j = c"
    unfolding in_set_conv_nth by blast
  then have j: "j < length cs" "c = ?cs' ! j" by simp_all
  show "\<not> lt x ?h"
  proof (cases "j = i")
    case True
    then have "c = tl (cs ! i)" using j i(1) by simp
    with c(2) ge_tl show ?thesis by simp
  next
    case False
    then have cj: "c = cs ! j" using j by simp
    then have ne: "cs ! j \<noteq> []" using c(2) by auto
    have sj: "sorted_wrt (\<lambda>x y. \<not> lt y x) (cs ! j)" using srt j(1) by simp
    obtain h' t' where hj: "cs ! j = h' # t'" using ne by (cases "cs ! j") auto
    have "x = h' \<or> x \<in> set t'" using c(2) cj unfolding hj by simp
    moreover have "\<forall>y \<in> set t'. \<not> lt y h'" using sj unfolding hj by simp
    moreover have "\<not> lt h' h'" by (rule swo_irrefl[OF swo])
    ultimately have "\<not> lt x h'" by blast
    then have a: "\<not> lt x (hd (cs ! j))" unfolding hj by simp
    have b: "\<not> lt (hd (cs ! j)) ?h" by (rule select_minimum_least[OF swo Some j(1) ne])
    show ?thesis by (rule swo_negtrans[OF swo a b])
  qed
qed

lemma length_concat_update_tl:
  assumes "i < length cs" and "cs ! i \<noteq> []"
  shows "length (concat (cs[i := tl (cs ! i)])) < length (concat cs)"
proof -
  have "size (add_mset (hd (cs ! i)) (mset (concat (cs[i := tl (cs ! i)]))))
          = size (mset (concat cs))"
    by (simp only: mset_concat_update_tl[OF assms])
  then show ?thesis by simp
qed

lemma sorted_merge_union_all:
  assumes swo: "strict_weak_order lt"
  shows "\<forall>c \<in> set cs. sorted_wrt (\<lambda>x y. \<not> lt y x) c
     \<Longrightarrow> sorted_wrt (\<lambda>x y. \<not> lt y x) (merge_union_all lt cs)"
proof (induction "length (concat cs)" arbitrary: cs rule: less_induct)
  case less
  note srt = less.prems
  show ?case
  proof (cases "select_minimum lt cs")
    case None
    have "merge_union_all lt cs = []"
      using None by (subst merge_union_all.simps) simp
    then show ?thesis by simp
  next
    case (Some i)
    from select_minimum_Some[OF Some] have i: "i < length cs" "cs ! i \<noteq> []" by simp_all
    let ?h = "hd (cs ! i)" and ?cs' = "cs[i := tl (cs ! i)]"
    have m: "merge_union_all lt cs = ?h # merge_union_all lt ?cs'"
      using Some by (subst merge_union_all.simps) simp
    have srt': "\<forall>c \<in> set ?cs'. sorted_wrt (\<lambda>x y. \<not> lt y x) c"
      by (rule merge_rest_sorted[OF swo Some srt])
    have rest: "sorted_wrt (\<lambda>x y. \<not> lt y x) (merge_union_all lt ?cs')"
      by (rule less.hyps[OF length_concat_update_tl[OF i] srt'])
    have ge: "\<forall>x \<in> set (merge_union_all lt ?cs'). \<not> lt x ?h"
    proof
      fix x assume "x \<in> set (merge_union_all lt ?cs')"
      then have "x \<in># mset (merge_union_all lt ?cs')" by simp
      then have "x \<in># mset (concat ?cs')" by (simp only: mset_merge_union_all)
      then have "x \<in> set (concat ?cs')" by simp
      then show "\<not> lt x ?h" by (rule merge_rest_bound[OF swo Some srt])
    qed
    have "sorted_wrt (\<lambda>x y. \<not> lt y x) (?h # merge_union_all lt ?cs')"
      using rest ge by simp
    then show ?thesis by (simp only: m)
  qed
qed

subsection \<open>The order of rows\<close>

lemma swo_tuple_less: "strict_weak_order (tuple_less sort_order)"
proof (induction sort_order)
  case Nil
  show ?case by (simp add: strict_weak_order_def)
next
  case (Cons key keys)
  let ?r = "\<lambda>x y :: 'a row. if snd key = DESCENDING then cell_less (y ! fst key) (x ! fst key)
              else cell_less (x ! fst key) (y ! fst key)"
  have r: "strict_weak_order ?r"
  proof (cases "snd key = DESCENDING")
    case True
    have "strict_weak_order (\<lambda>x y :: 'a row. cell_less (y ! fst key) (x ! fst key))"
      unfolding strict_weak_order_def
    proof (intro conjI allI impI)
      fix a b :: "'a row" assume "cell_less (b ! fst key) (a ! fst key)"
      then show "\<not> cell_less (a ! fst key) (b ! fst key)" by (rule cell_less_asym)
    next
      fix a b c :: "'a row"
      assume "\<not> cell_less (b ! fst key) (a ! fst key)" "\<not> cell_less (c ! fst key) (b ! fst key)"
      then show "\<not> cell_less (c ! fst key) (a ! fst key)"
        using cell_less_negtrans by blast
    qed
    with True show ?thesis by simp
  next
    case False
    have "strict_weak_order (\<lambda>x y :: 'a row. cell_less (x ! fst key) (y ! fst key))"
      unfolding strict_weak_order_def
    proof (intro conjI allI impI)
      fix a b :: "'a row" assume "cell_less (a ! fst key) (b ! fst key)"
      then show "\<not> cell_less (b ! fst key) (a ! fst key)" by (rule cell_less_asym)
    next
      fix a b c :: "'a row"
      assume "\<not> cell_less (a ! fst key) (b ! fst key)" "\<not> cell_less (b ! fst key) (c ! fst key)"
      then show "\<not> cell_less (a ! fst key) (c ! fst key)"
        using cell_less_negtrans by blast
    qed
    with False show ?thesis by simp
  qed
  have "tuple_less (key # keys) = (\<lambda>x y. ?r x y \<or> (\<not> ?r y x \<and> tuple_less keys x y))"
    by (intro ext) simp
  then show ?case using swo_lexicographic[OF r Cons] by simp
qed


subsection \<open>Columns, views and the table\<close>

lemma take_upt_min: "take k [0..<n] = [0..<min k n]"
  by (rule nth_equalityI) simp_all

lemma view_ok_columns: "view_ok v \<longleftrightarrow> (\<forall>c \<in> set (columns v). column_ok (row_count v) c)"
  by (simp add: view_ok_def column_ok_def)

lemma column_ok_append:
  assumes "column_ok n c" and "column_ok m d"
  shows "column_ok (n + m) (append_column c d)"
  using assms
  by (auto simp: column_ok_def append_column_def null_bits_def split: option.splits)

lemma cell_append_column:
  assumes "column_ok n c" and "column_ok m d" and "r < n + m"
  shows "cell (append_column c d) r = (if r < n then cell c r else cell d (r - n))"
proof (cases "is_null c")
  case None
  note nc = None
  show ?thesis
  proof (cases "is_null d")
    case None
    with nc assms show ?thesis
      by (simp add: cell_def append_column_def column_ok_def nth_append)
  next
    case (Some bd)
    with nc assms show ?thesis
      by (simp add: cell_def append_column_def column_ok_def null_bits_def nth_append)
  qed
next
  case (Some bc)
  note sc = Some
  show ?thesis
  proof (cases "is_null d")
    case None
    with sc assms show ?thesis
      by (simp add: cell_def append_column_def column_ok_def null_bits_def nth_append)
  next
    case (Some bd)
    with sc assms show ?thesis
      by (simp add: cell_def append_column_def column_ok_def null_bits_def nth_append)
  qed
qed

lemma column_ok_take:
  assumes "column_ok n c"
  shows "column_ok (min k n) (take_column k c)"
  using assms by (auto simp: column_ok_def take_column_def split: option.splits)

lemma cell_take_column:
  assumes "column_ok n c" and "r < min k n"
  shows "cell (take_column k c) r = cell c r"
  using assms by (auto simp: cell_def column_ok_def take_column_def split: option.splits)

lemma column_ok_drop:
  assumes "column_ok n c"
  shows "column_ok (n - k) (drop_column k c)"
  using assms by (auto simp: column_ok_def drop_column_def split: option.splits)

lemma cell_drop_column:
  assumes "column_ok n c" and "k + r < n"
  shows "cell (drop_column k c) r = cell c (k + r)"
  using assms by (auto simp: cell_def column_ok_def drop_column_def split: option.splits)

lemma view_ok_take:
  assumes "view_ok v"
  shows "view_ok (view_take k v)"
  using assms unfolding view_ok_columns
  by (auto simp: view_take_def intro: column_ok_take)

lemma row_of_view_take:
  assumes "view_ok v" and "r < min k (row_count v)"
  shows "row_of (view_take k v) r = row_of v r"
proof -
  have "\<And>c. c \<in> set (columns v) \<Longrightarrow> cell (take_column k c) r = cell c r"
    using assms unfolding view_ok_columns by (blast intro: cell_take_column)
  then show ?thesis by (simp add: row_of_def view_take_def)
qed

lemma view_rows_take:
  assumes "view_ok v"
  shows "view_rows (view_take k v) = take k (view_rows v)"
proof -
  have "view_rows (view_take k v) = map (row_of (view_take k v)) [0..<min k (row_count v)]"
    by (simp add: view_rows_def view_take_def)
  also have "\<dots> = map (row_of v) [0..<min k (row_count v)]"
    by (rule map_cong[OF refl]) (simp add: row_of_view_take[OF assms])
  also have "[0..<min k (row_count v)] = take k [0..<row_count v]"
    by (simp add: take_upt_min)
  also have "map (row_of v) (take k [0..<row_count v]) = take k (map (row_of v) [0..<row_count v])"
    by (simp add: take_map)
  finally show ?thesis by (simp add: view_rows_def)
qed

lemma view_ok_drop:
  assumes "view_ok v"
  shows "view_ok (view_drop k v)"
  using assms unfolding view_ok_columns
  by (auto simp: view_drop_def intro: column_ok_drop)

lemma row_of_view_drop:
  assumes "view_ok v" and "k + r < row_count v"
  shows "row_of (view_drop k v) r = row_of v (k + r)"
proof -
  have "\<And>c. c \<in> set (columns v) \<Longrightarrow> cell (drop_column k c) r = cell c (k + r)"
    using assms unfolding view_ok_columns by (blast intro: cell_drop_column)
  then show ?thesis by (simp add: row_of_def view_drop_def)
qed

lemma view_rows_drop:
  assumes "view_ok v"
  shows "view_rows (view_drop k v) = drop k (view_rows v)"
proof -
  have "view_rows (view_drop k v) = map (row_of (view_drop k v)) [0..<row_count v - k]"
    by (simp add: view_rows_def view_drop_def)
  also have "\<dots> = map (\<lambda>r. row_of v (k + r)) [0..<row_count v - k]"
    by (rule map_cong[OF refl]) (simp add: row_of_view_drop[OF assms])
  also have "\<dots> = map (row_of v) (map (\<lambda>r. k + r) [0..<row_count v - k])"
    by (simp add: comp_def)
  also have "map (\<lambda>r. k + r) [0..<row_count v - k] = drop k [0..<row_count v]"
    by (rule nth_equalityI) simp_all
  finally show ?thesis by (simp add: view_rows_def drop_map)
qed

lemma length_columns_view_take: "length (columns (view_take k v)) = length (columns v)"
  by (simp add: view_take_def)

lemma length_columns_view_drop: "length (columns (view_drop k v)) = length (columns v)"
  by (simp add: view_drop_def)

lemma row_count_view_take: "row_count (view_take k v) = min k (row_count v)"
  by (simp add: view_take_def)

lemma row_count_view_drop: "row_count (view_drop k v) = row_count v - k"
  by (simp add: view_drop_def)

lemma view_rows_empty: "row_count v = 0 \<Longrightarrow> view_rows v = []"
  by (simp add: view_rows_def)

lemma length_view_rows: "length (view_rows v) = row_count v"
  by (simp add: view_rows_def)

lemma Table_append_rows:
  assumes t: "view_ok t" and d: "view_ok d" and l: "length (columns t) = length (columns d)"
  shows "view_ok (Table_append t d k)"
    and "length (columns (Table_append t d k)) = length (columns t)"
    and "view_rows (Table_append t d k) = view_rows t @ take k (view_rows d)"
proof -
  let ?d = "view_take k d" and ?T = "Table_append t d k"
  let ?n = "row_count t" and ?m = "min k (row_count d)"
  have d': "view_ok ?d" by (rule view_ok_take[OF d])
  have l': "length (columns ?d) = length (columns t)" using l by (simp add: view_take_def)
  have ct: "\<And>j. j < length (columns t) \<Longrightarrow> column_ok ?n (columns t ! j)"
    using t unfolding view_ok_columns by simp
  have cd: "\<And>j. j < length (columns t) \<Longrightarrow> column_ok ?m (columns ?d ! j)"
    using d' l' unfolding view_ok_columns by (simp add: row_count_view_take)
  have cols: "columns ?T = map2 append_column (columns t) (columns ?d)"
    and rc: "row_count ?T = ?n + ?m"
    by (simp_all add: Table_append_def)
  have len: "length (columns ?T) = length (columns t)" using l' by (simp add: cols)
  have nth: "\<And>j. j < length (columns t) \<Longrightarrow>
      columns ?T ! j = append_column (columns t ! j) (columns ?d ! j)"
    using l' by (simp add: cols)
  show "length (columns ?T) = length (columns t)" by (rule len)
  show "view_ok ?T"
    unfolding view_ok_columns rc
  proof
    fix c assume "c \<in> set (columns ?T)"
    then obtain j where j: "j < length (columns ?T)" "columns ?T ! j = c"
      unfolding in_set_conv_nth by blast
    then have j': "j < length (columns t)" using len by simp
    have "column_ok (?n + ?m) (append_column (columns t ! j) (columns ?d ! j))"
      by (rule column_ok_append[OF ct[OF j'] cd[OF j']])
    then show "column_ok (?n + ?m) c" using nth[OF j'] j(2) by simp
  qed
  have row: "row_of ?T r = (if r < ?n then row_of t r else row_of ?d (r - ?n))"
    if r: "r < ?n + ?m" for r
  proof (rule nth_equalityI)
    show "length (row_of ?T r) = length (if r < ?n then row_of t r else row_of ?d (r - ?n))"
      using len l' by (simp add: row_of_def)
  next
    fix j assume "j < length (row_of ?T r)"
    then have j: "j < length (columns t)" using len by (simp add: row_of_def)
    have "row_of ?T r ! j = cell (append_column (columns t ! j) (columns ?d ! j)) r"
      using j len nth[OF j] by (simp add: row_of_def)
    also have "\<dots> = (if r < ?n then cell (columns t ! j) r else cell (columns ?d ! j) (r - ?n))"
      by (rule cell_append_column[OF ct[OF j] cd[OF j] r])
    also have "\<dots> = (if r < ?n then row_of t r else row_of ?d (r - ?n)) ! j"
      using j l' by (simp add: row_of_def)
    finally show "row_of ?T r ! j = (if r < ?n then row_of t r else row_of ?d (r - ?n)) ! j" .
  qed
  have "view_rows ?T = map (row_of ?T) ([0..<?n] @ [?n..<?n + ?m])"
    unfolding view_rows_def rc by (simp only: upt_add_eq_append[OF le0])
  also have "\<dots> = map (row_of ?T) [0..<?n] @ map (row_of ?T) [?n..<?n + ?m]" by simp
  also have "map (row_of ?T) [0..<?n] = map (row_of t) [0..<?n]"
    by (rule map_cong[OF refl]) (simp add: row)
  also have "map (row_of ?T) [?n..<?n + ?m] = map (\<lambda>r. row_of ?d (r - ?n)) [?n..<?n + ?m]"
    by (rule map_cong[OF refl]) (simp add: row)
  also have "\<dots> = map (row_of ?d) [0..<?m]"
    by (rule nth_equalityI) simp_all
  finally have "view_rows ?T = view_rows t @ view_rows ?d"
    by (simp add: view_rows_def row_count_view_take)
  then show "view_rows ?T = view_rows t @ take k (view_rows d)"
    by (simp add: view_rows_take[OF d])
qed

lemma Table_Clear_ok:
  assumes "view_ok t"
  shows "view_ok (Table_Clear t)" and "length (columns (Table_Clear t)) = length (columns t)"
    and "view_rows (Table_Clear t) = []"
  using assms view_ok_take[OF assms, of 0]
  by (simp_all add: Table_Clear_def length_columns_view_take view_rows_def row_count_view_take)

subsection \<open>One sorted run\<close>

lemma tuple_less_row_of:
  assumes "\<forall>key \<in> set sort_order. fst key < length (columns v)"
  shows "tuple_less sort_order (row_of v a) (row_of v b) = row_less sort_order v a b"
  using assms
proof (induction sort_order)
  case Nil
  show ?case by simp
next
  case (Cons key keys)
  then have k: "fst key < length (columns v)" and ks: "\<forall>key \<in> set keys. fst key < length (columns v)"
    by simp_all
  have c: "\<And>r. row_of v r ! fst key = cell (columns v ! fst key) r"
    using k by (simp add: row_of_def)
  show ?case
    by (simp add: Cons.IH[OF ks] c key_less_def column_less_def)
qed

lemma SortView_sorted_run:
  assumes "\<forall>key \<in> set sort_order. fst key < length (columns v)"
  shows "\<exists>run. SortView (spill_io fits) sort_order v = Inr run \<and>
           mset run = mset (view_rows v) \<and> non_decreasing sort_order run"
proof -
  have "length (Permutation_new (row_count v)) = row_count v"
    by (simp add: Permutation_new_def)
  from SortPermutation_result[OF this, of "\<lambda>a b. True" sort_order]
  obtain p where p: "SortPermutation sort_order v (Permutation_new (row_count v)) = Some p"
    "mset p = mset (Permutation_new (row_count v))"
    "sorted_wrt (\<lambda>a b. \<not> row_less sort_order v b a) p" by auto
  have sv: "SortView (spill_io fits) sort_order v = Inr (map (row_of v) p)"
    using p(1) by (simp add: SortView_def spill_io_def apply_permutation_def)
  have "mset p = mset [0..<row_count v]" using p(2) by (simp add: Permutation_new_def)
  then have "mset (map (row_of v) p) = mset (map (row_of v) [0..<row_count v])"
    by (metis mset_map)
  then have m: "mset (map (row_of v) p) = mset (view_rows v)" by (simp add: view_rows_def)
  have "sorted_wrt (\<lambda>a b. \<not> tuple_less sort_order (row_of v b) (row_of v a)) p"
    using p(3) by (simp add: tuple_less_row_of[OF assms])
  then have s: "non_decreasing sort_order (map (row_of v) p)"
    by (simp add: non_decreasing_def sorted_wrt_map)
  from sv m s show ?thesis by blast
qed

subsection \<open>Sorted lists with the same elements\<close>

lemma sorted_filter_less_position:
  assumes swo: "strict_weak_order lt"
  shows "sorted_wrt (\<lambda>x y. \<not> lt y x) xs \<Longrightarrow> i < length xs
           \<Longrightarrow> lt (xs ! i) v \<longleftrightarrow> i < length (filter (\<lambda>z. lt z v) xs)"
proof (induction xs arbitrary: i)
  case Nil
  then show ?case by simp
next
  case (Cons x xs)
  from Cons.prems(1) have ge: "\<forall>y \<in> set xs. \<not> lt y x"
    and st: "sorted_wrt (\<lambda>x y. \<not> lt y x) xs" by simp_all
  show ?case
  proof (cases "lt x v")
    case True
    show ?thesis
    proof (cases i)
      case 0
      then show ?thesis using True by simp
    next
      case (Suc i')
      with Cons.prems(2) have "i' < length xs" by simp
      from Cons.IH[OF st this] show ?thesis using True Suc by simp
    qed
  next
    case False
    have none: "\<forall>y \<in> set xs. \<not> lt y v"
    proof
      fix y assume "y \<in> set xs"
      with ge have "\<not> lt y x" by blast
      from swo_negtrans[OF swo this False] show "\<not> lt y v" .
    qed
    then have f: "filter (\<lambda>z. lt z v) xs = []" by (simp add: filter_empty_conv)
    show ?thesis
    proof (cases i)
      case 0
      then show ?thesis using False f by simp
    next
      case (Suc i')
      with Cons.prems(2) have "xs ! i' \<in> set xs" by simp
      with none have "\<not> lt (xs ! i') v" by blast
      then show ?thesis using False f Suc by simp
    qed
  qed
qed

lemma sorted_same_mset_positions:
  assumes swo: "strict_weak_order lt"
    and xs: "sorted_wrt (\<lambda>x y. \<not> lt y x) xs" and ys: "sorted_wrt (\<lambda>x y. \<not> lt y x) ys"
    and m: "mset xs = mset ys" and i: "i < length xs"
  shows "\<not> lt (xs ! i) (ys ! i) \<and> \<not> lt (ys ! i) (xs ! i)"
proof -
  have l: "length xs = length ys" using m by (rule mset_eq_length)
  have c: "length (filter (\<lambda>z. lt z v) xs) = length (filter (\<lambda>z. lt z v) ys)" for v
  proof -
    have "mset (filter (\<lambda>z. lt z v) xs) = mset (filter (\<lambda>z. lt z v) ys)"
      by (simp only: mset_filter m)
    then show ?thesis by (rule mset_eq_length)
  qed
  have e: "lt (xs ! i) v \<longleftrightarrow> lt (ys ! i) v" for v
    using sorted_filter_less_position[OF swo xs i, of v]
      sorted_filter_less_position[OF swo ys, of i v] i l c[of v] by simp
  have "\<not> lt (ys ! i) (ys ! i)" "\<not> lt (xs ! i) (xs ! i)" by (rule swo_irrefl[OF swo])+
  with e[of "ys ! i"] e[of "xs ! i"] show ?thesis by blast
qed

subsection \<open>The sorter between two writes\<close>

lemma open_file_cursors_spill_io: "open_file_cursors (spill_io fits) files = Inr files"
  by (induction files) (simp_all add: spill_io_def)

lemma mset_concat_rev: "mset (concat (rev files)) = mset (concat files)"
  by (induction files) simp_all

lemma Flush_spill:
  assumes ok: "sorter_ok sort_order n s" and keys: "\<forall>key \<in> set sort_order. fst key < n"
  shows "\<exists>s1. Flush (spill_io fits) s = Inr s1 \<and> sorter_ok sort_order n s1 \<and>
           row_count (memory_buffer_m s1) = 0 \<and> sorter_rows s1 = sorter_rows s"
proof (cases "row_count (memory_buffer_m s) > 0")
  case False
  then have "Flush (spill_io fits) s = Inr s" by (simp add: Flush_def)
  with False ok show ?thesis by simp
next
  case True
  let ?t = "memory_buffer_m s" and ?u = "unbuffered_sorter_m s"
  let ?files = "file_buffers_m (merger_m ?u)"
  from ok have t: "view_ok ?t" and n: "length (columns ?t) = n"
    and so: "sort_order_m ?u = sort_order"
    and fs: "\<forall>f \<in> set ?files. non_decreasing sort_order f"
    by (simp_all add: sorter_ok_def)
  from keys n have "\<forall>key \<in> set sort_order. fst key < length (columns ?t)" by simp
  from SortView_sorted_run[OF this, of fits] obtain run where
    sv: "SortView (spill_io fits) sort_order ?t = Inr run"
    and m: "mset run = mset (view_rows ?t)" and nd: "non_decreasing sort_order run"
    by blast
  let ?u' = "?u\<lparr>merger_m := (merger_m ?u)\<lparr>file_buffers_m := ?files @ [run]\<rparr>\<rparr>"
  let ?s1 = "s\<lparr>memory_buffer_m := Table_Clear ?t, unbuffered_sorter_m := ?u'\<rparr>"
  have ad: "AddSorted (TempFile_Create (spill_io fits)) (Writer_WriteAll (spill_io fits))
              (Sink_Finalize (spill_io fits)) (merger_m ?u) run
            = Inr ((merger_m ?u)\<lparr>file_buffers_m := ?files @ [run]\<rparr>)"
    by (simp add: AddSorted_def spill_io_def)
  have uw: "UnbufferedSorter_Write (spill_io fits) ?u ?t = Inr (row_count ?t, ?u')"
    using sv ad by (simp add: UnbufferedSorter_Write_def so)
  have fl: "Flush (spill_io fits) s = Inr ?s1"
    unfolding Flush_def uw using True by simp
  have ok1: "sorter_ok sort_order n ?s1"
    unfolding sorter_ok_def using Table_Clear_ok[OF t] n so fs nd by auto
  have rc: "row_count (memory_buffer_m ?s1) = 0" by (simp add: row_count_Table_Clear)
  have rows: "sorter_rows ?s1 = sorter_rows s"
    using Table_Clear_ok(3)[OF t] m by (simp add: sorter_rows_def)
  from fl ok1 rc rows show ?thesis by blast
qed

lemma sorter_append:
  assumes ok: "sorter_ok sort_order n s" and d: "view_ok d" "length (columns d) = n"
  shows "sorter_ok sort_order n (s\<lparr>memory_buffer_m := Table_append (memory_buffer_m s) d w\<rparr>)"
    and "sorter_rows (s\<lparr>memory_buffer_m := Table_append (memory_buffer_m s) d w\<rparr>)
           = sorter_rows s + mset (take w (view_rows d))"
proof -
  from ok have t: "view_ok (memory_buffer_m s)" and n: "length (columns (memory_buffer_m s)) = n"
    by (simp_all add: sorter_ok_def)
  have l: "length (columns (memory_buffer_m s)) = length (columns d)" using n d(2) by simp
  note ta = Table_append_rows[OF t d(1) l, of w]
  show "sorter_ok sort_order n (s\<lparr>memory_buffer_m := Table_append (memory_buffer_m s) d w\<rparr>)"
    using ok ta(1) ta(2) n by (simp add: sorter_ok_def)
  show "sorter_rows (s\<lparr>memory_buffer_m := Table_append (memory_buffer_m s) d w\<rparr>)
           = sorter_rows s + mset (take w (view_rows d))"
    using ta(3) by (simp add: sorter_rows_def)
qed

lemma BufferingSorter_Write_spill:
  assumes ok: "sorter_ok sort_order n s" and keys: "\<forall>key \<in> set sort_order. fst key < n"
    and d: "view_ok d" "length (columns d) = n" and pos: "0 < row_count d"
    and q: "quota_above_one_row fits"
  shows "\<exists>w s'. BufferingSorter_Write (spill_io fits) s d = Inr (w, s') \<and> 0 < w \<and>
           w \<le> row_count d \<and> sorter_ok sort_order n s' \<and>
           sorter_rows s' = sorter_rows s + mset (take w (view_rows d))"
proof -
  have le: "\<And>t. fits t d \<le> row_count d" using q by (simp add: quota_above_one_row_def)
  have ts: "\<And>t. TableSink_Write (spill_io fits) t d = Inr (fits t d)"
    by (simp add: spill_io_def)
  show ?thesis
  proof (cases "0 < fits (memory_buffer_m s) d")
    case True
    let ?w = "fits (memory_buffer_m s) d"
    let ?s' = "s\<lparr>memory_buffer_m := Table_append (memory_buffer_m s) d ?w\<rparr>"
    have w: "BufferingSorter_Write (spill_io fits) s d = Inr (?w, ?s')"
      unfolding BufferingSorter_Write_def ts using True by simp
    from w True le[of "memory_buffer_m s"] sorter_append[OF ok d, of ?w] show ?thesis by blast
  next
    case False
    from Flush_spill[OF ok keys, of fits] obtain s1 where
      fl: "Flush (spill_io fits) s = Inr s1" and ok1: "sorter_ok sort_order n s1"
      and rc: "row_count (memory_buffer_m s1) = 0" and rows: "sorter_rows s1 = sorter_rows s"
      by blast
    let ?w = "fits (memory_buffer_m s1) d"
    let ?s' = "s1\<lparr>memory_buffer_m := Table_append (memory_buffer_m s1) d ?w\<rparr>"
    have wp: "0 < ?w" using q rc pos by (simp add: quota_above_one_row_def)
    have w: "BufferingSorter_Write (spill_io fits) s d = Inr (?w, ?s')"
      unfolding BufferingSorter_Write_def ts fl using False rc wp by simp
    from sorter_append[OF ok1 d, of ?w] rows
    have "sorter_ok sort_order n ?s'"
      "sorter_rows ?s' = sorter_rows s + mset (take ?w (view_rows d))" by simp_all
    with w wp le[of "memory_buffer_m s1"] show ?thesis by blast
  qed
qed

lemma write_view_spill:
  assumes keys: "\<forall>key \<in> set sort_order. fst key < n" and q: "quota_above_one_row fits"
  shows "sorter_ok sort_order n s \<Longrightarrow> view_ok d \<Longrightarrow> length (columns d) = n
    \<Longrightarrow> \<exists>s'. write_view (spill_io fits) s d = Inr s' \<and> sorter_ok sort_order n s' \<and>
           sorter_rows s' = sorter_rows s + mset (view_rows d)"
proof (induction "row_count d" arbitrary: s d rule: less_induct)
  case less
  show ?case
  proof (cases "row_count d = 0")
    case True
    then have "write_view (spill_io fits) s d = Inr s"
      by (subst write_view.simps) simp
    with True less.prems(1) show ?thesis by (simp add: view_rows_empty)
  next
    case False
    then have pos: "0 < row_count d" by simp
    from BufferingSorter_Write_spill[OF less.prems(1) keys less.prems(2,3) pos q]
    obtain w s1 where w: "BufferingSorter_Write (spill_io fits) s d = Inr (w, s1)"
      and wp: "0 < w" and ok1: "sorter_ok sort_order n s1"
      and rows1: "sorter_rows s1 = sorter_rows s + mset (take w (view_rows d))"
      by blast
    let ?d = "view_drop w d"
    have smaller: "row_count ?d < row_count d" using wp pos by (simp add: row_count_view_drop)
    have d1: "view_ok ?d" by (rule view_ok_drop[OF less.prems(2)])
    have d2: "length (columns ?d) = n" using less.prems(3) by (simp add: length_columns_view_drop)
    from less.hyps[OF smaller ok1 d1 d2] obtain s' where
      s': "write_view (spill_io fits) s1 ?d = Inr s'" and ok': "sorter_ok sort_order n s'"
      and rows': "sorter_rows s' = sorter_rows s1 + mset (view_rows ?d)"
      by blast
    have wv: "write_view (spill_io fits) s d = Inr s'"
      using False w s' by (subst write_view.simps) simp
    have "mset (take w (view_rows d)) + mset (drop w (view_rows d)) = mset (view_rows d)"
      by (metis append_take_drop_id mset_append)
    then have "sorter_rows s' = sorter_rows s + mset (view_rows d)"
      using rows' rows1 by (simp add: view_rows_drop[OF less.prems(2)] add.assoc)
    with wv ok' show ?thesis by blast
  qed
qed

lemma write_all_spill:
  assumes keys: "\<forall>key \<in> set sort_order. fst key < n" and q: "quota_above_one_row fits"
  shows "sorter_ok sort_order n s \<Longrightarrow> \<forall>v \<in> set views. view_ok v \<and> length (columns v) = n
    \<Longrightarrow> \<exists>s'. write_all (spill_io fits) s views = Inr s' \<and> sorter_ok sort_order n s' \<and>
           sorter_rows s' = sorter_rows s + mset (concat (map view_rows views))"
proof (induction views arbitrary: s)
  case Nil
  then show ?case by simp
next
  case (Cons d views)
  from Cons.prems(2) have d: "view_ok d" "length (columns d) = n"
    and vs: "\<forall>v \<in> set views. view_ok v \<and> length (columns v) = n" by simp_all
  from write_view_spill[OF keys q Cons.prems(1) d] obtain s1 where
    s1: "write_view (spill_io fits) s d = Inr s1" and ok1: "sorter_ok sort_order n s1"
    and rows1: "sorter_rows s1 = sorter_rows s + mset (view_rows d)" by blast
  from Cons.IH[OF ok1 vs] obtain s' where
    s': "write_all (spill_io fits) s1 views = Inr s'" and ok': "sorter_ok sort_order n s'"
    and rows': "sorter_rows s' = sorter_rows s1 + mset (concat (map view_rows views))" by blast
  have "write_all (spill_io fits) s (d # views) = Inr s'" using s1 s' by simp
  moreover have "sorter_rows s' = sorter_rows s + mset (concat (map view_rows (d # views)))"
    using rows' rows1 by (simp add: add.assoc)
  ultimately show ?case using ok' by blast
qed

lemma GetResultCursor_spill:
  assumes ok: "sorter_ok sort_order n s" and keys: "\<forall>key \<in> set sort_order. fst key < n"
  shows "\<exists>out. GetResultCursor (spill_io fits) s = Inr out \<and> mset out = sorter_rows s \<and>
           non_decreasing sort_order out"
proof -
  let ?t = "memory_buffer_m s" and ?u = "unbuffered_sorter_m s"
  let ?files = "file_buffers_m (merger_m ?u)"
  from ok have n: "length (columns ?t) = n" and so: "sort_order_m ?u = sort_order"
    and fs: "\<forall>f \<in> set ?files. non_decreasing sort_order f"
    by (simp_all add: sorter_ok_def)
  from keys n have "\<forall>key \<in> set sort_order. fst key < length (columns ?t)" by simp
  from SortView_sorted_run[OF this, of fits] obtain run where
    sv: "SortView (spill_io fits) sort_order ?t = Inr run"
    and m: "mset run = mset (view_rows ?t)" and nd: "non_decreasing sort_order run"
    by blast
  show ?thesis
  proof (cases "?files = []")
    case True
    have "GetResultCursor (spill_io fits) s = Inr run"
      unfolding GetResultCursor_def so sv using True
      by (simp add: GetResultCursorMergedWith_def)
    moreover have "mset run = sorter_rows s" using m True by (simp add: sorter_rows_def)
    ultimately show ?thesis using nd by blast
  next
    case False
    let ?cs = "rev ?files @ [run]"
    let ?out = "merge_union_all (tuple_less sort_order) ?cs"
    have g: "GetResultCursor (spill_io fits) s = Inr ?out"
      unfolding GetResultCursor_def so sv using False
      by (simp add: GetResultCursorMergedWith_def Merge_def open_file_cursors_spill_io
            BoundMergeUnionAll_def so)
    have "mset ?out = mset (concat ?cs)" by (rule mset_merge_union_all)
    also have "\<dots> = mset (concat ?files) + mset run" by (simp add: mset_concat_rev)
    finally have mo: "mset ?out = sorter_rows s" using m by (simp add: sorter_rows_def)
    have "\<forall>c \<in> set ?cs. sorted_wrt (\<lambda>x y. \<not> tuple_less sort_order y x) c"
      using fs nd by (auto simp: non_decreasing_def)
    from sorted_merge_union_all[OF swo_tuple_less this]
    have "non_decreasing sort_order ?out" by (simp add: non_decreasing_def)
    with g mo show ?thesis by blast
  qed
qed

lemma CreateBufferingSorter_ok:
  "sorter_ok sort_order n (CreateBufferingSorter n sort_order)"
  "sorter_rows (CreateBufferingSorter n sort_order) = {#}"
  by (simp_all add: sorter_ok_def sorter_rows_def CreateBufferingSorter_def view_ok_def
        view_rows_def)

lemma ProcessData_spill:
  assumes i: "input_ok sort_order n views" and q: "quota_above_one_row fits"
  shows "\<exists>out. ProcessData (spill_io fits) sort_order n views = Inr out \<and>
           mset out = mset (concat (map view_rows views)) \<and> non_decreasing sort_order out"
proof -
  from i have keys: "\<forall>key \<in> set sort_order. fst key < n"
    and vs: "\<forall>v \<in> set views. view_ok v \<and> length (columns v) = n"
    by (simp_all add: input_ok_def)
  from write_all_spill[OF keys q CreateBufferingSorter_ok(1) vs] obtain s where
    s: "write_all (spill_io fits) (CreateBufferingSorter n sort_order) views = Inr s"
    and ok: "sorter_ok sort_order n s"
    and rows: "sorter_rows s = mset (concat (map view_rows views))"
    by (auto simp: CreateBufferingSorter_ok(2))
  from GetResultCursor_spill[OF ok keys, of fits] obtain out where
    "GetResultCursor (spill_io fits) s = Inr out" "mset out = sorter_rows s"
    "non_decreasing sort_order out" by blast
  with s rows show ?thesis by (simp add: ProcessData_def)
qed

lemma quota_unbounded_memory: "quota_above_one_row unbounded_memory"
  by (simp add: quota_above_one_row_def unbounded_memory_def)

text \<open>
  C4, as amended. For every input and every memory quota above one row, the external
  sort and the sort in memory both return a result; the two results hold the same rows
  with the same multiplicities, both are non-decreasing under the sort order, and at
  every position their rows agree on all sort keys. The order of rows with equal keys
  is not the same in general.
\<close>

theorem external_sort_same_rows:
  assumes "input_ok sort_order n views" and "quota_above_one_row fits"
  shows "\<exists>ext mem. external_sort fits sort_order n views = Inr ext \<and>
           in_memory_sort sort_order n views = Inr mem \<and>
           mset ext = mset mem \<and>
           non_decreasing sort_order ext \<and> non_decreasing sort_order mem \<and>
           length ext = length mem \<and>
           (\<forall>i < length ext. \<not> tuple_less sort_order (ext ! i) (mem ! i) \<and>
                             \<not> tuple_less sort_order (mem ! i) (ext ! i))"
proof -
  from ProcessData_spill[OF assms] obtain ext where
    e: "external_sort fits sort_order n views = Inr ext"
    "mset ext = mset (concat (map view_rows views))" "non_decreasing sort_order ext"
    by (auto simp: external_sort_def)
  from ProcessData_spill[OF assms(1) quota_unbounded_memory] obtain mem where
    m: "in_memory_sort sort_order n views = Inr mem"
    "mset mem = mset (concat (map view_rows views))" "non_decreasing sort_order mem"
    by (auto simp: in_memory_sort_def)
  have mm: "mset ext = mset mem" using e(2) m(2) by simp
  have l: "length ext = length mem" using mm by (rule mset_eq_length)
  have p: "\<forall>i < length ext. \<not> tuple_less sort_order (ext ! i) (mem ! i) \<and>
                             \<not> tuple_less sort_order (mem ! i) (ext ! i)"
  proof (intro allI impI)
    fix i assume "i < length ext"
    from sorted_same_mset_positions[OF swo_tuple_less
        e(3)[unfolded non_decreasing_def] m(3)[unfolded non_decreasing_def] mm this]
    show "\<not> tuple_less sort_order (ext ! i) (mem ! i) \<and>
          \<not> tuple_less sort_order (mem ! i) (ext ! i)" .
  qed
  from e(1) m(1) mm e(3) m(3) l p show ?thesis by blast
qed

theorem external_sort_same_rows_witness:
  "input_ok [(0, ASCENDING)] 2 [example_equal_keys] \<and>
   quota_above_one_row (room_for 1 :: int View \<Rightarrow> int View \<Rightarrow> nat) \<and>
   external_sort (room_for 1) [(0, ASCENDING)] 2 [example_equal_keys]
     = Inr [[Some 1, Some 20], [Some 1, Some 10], [Some 1, Some 30]] \<and>
   mset [[Some 1, Some 20], [Some 1, Some 10], [Some 1, Some (30::int)]]
     = mset (projr (in_memory_sort [(0, ASCENDING)] 2 [example_equal_keys])) \<and>
   non_decreasing [(0, ASCENDING)] [[Some 1, Some 20], [Some 1, Some 10], [Some 1, Some (30::int)]]"
proof -
  have i: "input_ok [(0, ASCENDING)] 2 [example_equal_keys]"
    by (simp add: input_ok_def example_equal_keys_def view_ok_def)
  have q: "quota_above_one_row (room_for 1 :: int View \<Rightarrow> int View \<Rightarrow> nat)"
    by (auto simp: quota_above_one_row_def room_for_def)
  have e: "external_sort (room_for 1) [(0, ASCENDING)] 2 [example_equal_keys]
     = Inr [[Some 1, Some 20], [Some 1, Some 10], [Some 1, Some 30]]" by code_simp
  from external_sort_same_rows[OF i q] obtain ext mem where
    r: "external_sort (room_for 1) [(0, ASCENDING)] 2 [example_equal_keys] = Inr ext"
    "in_memory_sort [(0, ASCENDING)] 2 [example_equal_keys] = Inr mem"
    "mset ext = mset mem" "non_decreasing [(0, ASCENDING)] ext" by blast
  from r(1) e have x: "ext = [[Some 1, Some 20], [Some 1, Some 10], [Some 1, Some 30]]" by simp
  have a: "mset [[Some 1, Some 20], [Some 1, Some 10], [Some 1, Some (30::int)]]
     = mset (projr (in_memory_sort [(0, ASCENDING)] 2 [example_equal_keys]))"
    using r(2,3) x by simp
  have b: "non_decreasing [(0, ASCENDING)]
             [[Some 1, Some 20], [Some 1, Some 10], [Some 1, Some (30::int)]]"
    using r(4) x by simp
  show ?thesis by (intro conjI i q e a b)
qed

text \<open>
  The claim C4 as it was stated fails when rows have equal keys: with a table that
  holds one row, the three rows with the key 1 and the payloads 10, 20 and 30 are
  merged from the run of the second row, the run of the first row and the table, and
  come out as 20, 10, 30, while the sort in memory returns 10, 20, 30.
\<close>

theorem external_sort_order_counterexample:
  "input_ok [(0, ASCENDING)] 2 [example_equal_keys] \<and>
   quota_above_one_row (room_for 1 :: int View \<Rightarrow> int View \<Rightarrow> nat) \<and>
   external_sort (room_for 1) [(0, ASCENDING)] 2 [example_equal_keys]
     = Inr [[Some 1, Some 20], [Some 1, Some 10], [Some 1, Some 30]] \<and>
   in_memory_sort [(0, ASCENDING)] 2 [example_equal_keys]
     = Inr [[Some 1, Some 10], [Some 1, Some 20], [Some 1, Some 30]]"
proof -
  have i: "input_ok [(0, ASCENDING)] 2 [example_equal_keys]"
    by (simp add: input_ok_def example_equal_keys_def view_ok_def)
  have q: "quota_above_one_row (room_for 1 :: int View \<Rightarrow> int View \<Rightarrow> nat)"
    by (auto simp: quota_above_one_row_def room_for_def)
  have e: "external_sort (room_for 1) [(0, ASCENDING)] 2 [example_equal_keys]
     = Inr [[Some 1, Some 20], [Some 1, Some 10], [Some 1, Some 30]]" by code_simp
  have m: "in_memory_sort [(0, ASCENDING)] 2 [example_equal_keys]
     = Inr [[Some 1, Some 10], [Some 1, Some 20], [Some 1, Some 30]]" by code_simp
  show ?thesis by (intro conjI i q e m)
qed

end
